theory Spec2Isabelle
  imports Main "HOL-Library.Word"
begin

section \<open>Data model\<close>

text \<open>
  Bytes are 8-bit words. A Python \<open>str\<close> is the list of its code points. The archive
  layer names unit files by a \<open>string\<close>; block numbers and sizes are Python integers that
  are never negative (they are read with \<open>struct.unpack('<I', ...)\<close>), hence \<open>nat\<close>.
\<close>

type_synonym byte = "8 word"
type_synonym py_str = "nat list"

text \<open>
  An \<open>SCFParserV2\<close> object holds one attribute, \<open>self.encoding\<close>. The codec that this
  name denotes belongs to the Python runtime, not to the repository, so it is carried
  along as two functions: \<open>decode_ignore\<close> is \<open>bytes.decode(encoding, errors='ignore')\<close>
  and \<open>encode_strict\<close> is \<open>str.encode(encoding)\<close>; \<open>None\<close> stands for a raised exception.
\<close>

record scf_parser =
  encoding :: string
  decode_ignore :: "byte list \<Rightarrow> py_str option"
  encode_strict :: "py_str \<Rightarrow> byte list option"

text \<open>
  One element of \<open>text_segments\<close>: the dictionary with the keys \<open>'offset'\<close>, \<open>'length'\<close>,
  \<open>'original'\<close> and \<open>'text'\<close>.
\<close>

record text_segment =
  seg_offset :: nat
  seg_length :: nat
  seg_original :: "byte list"
  seg_text :: py_str

text \<open>
  The dictionary returned by \<open>parse\<close>: keys \<open>'original_data'\<close>, \<open>'size'\<close>, \<open>'encoding'\<close>
  and \<open>'text_segments'\<close>.
\<close>

record scf_container =
  original_data :: "byte list"
  scf_size :: nat
  scf_encoding :: string
  text_segments :: "text_segment list"

text \<open>The slice \<open>data[a:b]\<close> for \<open>0 <= a\<close>, with Python's clamping at the end of the data.\<close>

definition py_slice :: "'a list \<Rightarrow> nat \<Rightarrow> nat \<Rightarrow> 'a list" where
  "py_slice data a b = take (b - a) (drop a data)"

section \<open>The segmented-text codec: \<open>SCFParserV2\<close>\<close>

subsection \<open>\<open>parse\<close>\<close>

text \<open>
  The test \<open>'\\u3040' <= c <= '\\u30ff' or '\\u4e00' <= c <= '\\u9fff'\<close> on one character (a code point).
\<close>

definition is_japanese :: "nat \<Rightarrow> bool" where
  "is_japanese c \<longleftrightarrow> (0x3040 \<le> c \<and> c \<le> 0x30FF) \<or> (0x4E00 \<le> c \<and> c \<le> 0x9FFF)"

text \<open>
  The inner loop \<open>while i < len(data) and data[i] != 0x00: segment.append(data[i]); i += 1\<close>.
  It returns the final \<open>i\<close> and \<open>segment\<close>.
\<close>

function scan_run :: "byte list \<Rightarrow> nat \<Rightarrow> byte list \<Rightarrow> nat \<times> byte list" where
  "scan_run data i segment =
     (if i < length data \<and> data ! i \<noteq> 0
      then scan_run data (i + 1) (segment @ [data ! i])
      else (i, segment))"
  by pat_completeness auto
termination
  by (relation "measure (\<lambda>(data, i, segment). length data - i)") auto

declare scan_run.simps [simp del]

text \<open>
  \<open>if i < len(data) and data[i] == 0x00: segment.append(0x00); i += 1\<close>
\<close>

definition take_terminator :: "byte list \<Rightarrow> nat \<Rightarrow> byte list \<Rightarrow> nat \<times> byte list" where
  "take_terminator data i segment =
     (if i < length data \<and> data ! i = 0 then (i + 1, segment @ [0]) else (i, segment))"

text \<open>
  The body of \<open>if len(segment) > 1:\<close>. The slice \<open>segment[:-1]\<close> drops the last element
  of the run, whatever it is. A decoder that raises is caught by the bare \<open>except\<close> and
  the run is passed over.
\<close>

definition record_segment ::
  "scf_parser \<Rightarrow> nat \<Rightarrow> byte list \<Rightarrow> text_segment list \<Rightarrow> text_segment list" where
  "record_segment p start segment segs =
     (if length segment > 1 then
        (let text_content = butlast segment in
         if text_content \<noteq> [] then
           (case decode_ignore p text_content of
              None \<Rightarrow> segs
            | Some decoded \<Rightarrow>
                if list_ex is_japanese decoded
                then segs @ [\<lparr>seg_offset = start, seg_length = length segment,
                              seg_original = segment, seg_text = decoded\<rparr>]
                else segs)
         else segs)
      else segs)"

text \<open>
  One pass of the outer loop body, from position \<open>i\<close>: the position after the run and the
  run itself (with its terminator when one was found).
\<close>

definition next_run :: "byte list \<Rightarrow> nat \<Rightarrow> nat \<times> byte list" where
  "next_run data i = (case scan_run data i [] of (i1, segment) \<Rightarrow> take_terminator data i1 segment)"

lemma scan_run_fst_ge: "i \<le> fst (scan_run data i segment)"
proof (induction data i segment rule: scan_run.induct)
  case (1 data i segment)
  show ?case
  proof (cases "i < length data \<and> data ! i \<noteq> 0")
    case True
    with 1 have "i + 1 \<le> fst (scan_run data (i + 1) (segment @ [data ! i]))" by simp
    with True show ?thesis by (subst scan_run.simps) simp
  next
    case False
    then show ?thesis by (subst scan_run.simps) auto
  qed
qed

lemma scan_run_stop:
  "fst (scan_run data i segment) < length data \<Longrightarrow> data ! fst (scan_run data i segment) = 0"
proof (induction data i segment rule: scan_run.induct)
  case (1 data i segment)
  show ?case
  proof (cases "i < length data \<and> data ! i \<noteq> 0")
    case True
    with 1 show ?thesis by (subst scan_run.simps, subst (asm) scan_run.simps) simp
  next
    case False
    with 1(2) show ?thesis by (subst scan_run.simps, subst (asm) scan_run.simps) auto
  qed
qed

lemma next_run_advances:
  assumes "i < length data"
  shows "i < fst (next_run data i)"
proof (cases "scan_run data i []")
  case (Pair i1 segment)
  have ge: "i \<le> i1" using scan_run_fst_ge [of i data "[]"] Pair by simp
  show ?thesis
  proof (cases "i1 < length data")
    case True
    then have "data ! i1 = 0" using scan_run_stop [of data i "[]"] Pair by simp
    with True ge Pair show ?thesis by (simp add: next_run_def take_terminator_def)
  next
    case False
    with assms ge Pair show ?thesis by (simp add: next_run_def take_terminator_def)
  qed
qed

text \<open>
  The outer loop \<open>while i < len(data):\<close>, with the list \<open>text_segments\<close> built so far.
\<close>

function parse_loop ::
  "scf_parser \<Rightarrow> byte list \<Rightarrow> nat \<Rightarrow> text_segment list \<Rightarrow> text_segment list" where
  "parse_loop p data i segs =
     (if i < length data then
        (let start = i; r = next_run data i
         in parse_loop p data (fst r) (record_segment p start (snd r) segs))
      else segs)"
  by pat_completeness auto
termination
proof (relation "measure (\<lambda>(p, data, i, segs). length data - i)")
  show "wf (measure (\<lambda>(p, data, i, segs). length data - i))" by simp
next
  fix p :: scf_parser and data :: "byte list" and i :: nat and segs :: "text_segment list"
    and x :: nat and xa :: "nat \<times> byte list"
  assume "i < length data" and "x = i" and "xa = next_run data i"
  then show "((p, data, fst xa, record_segment p x (snd xa) segs), p, data, i, segs)
      \<in> measure (\<lambda>(p, data, i, segs). length data - i)"
    using next_run_advances [of i data] by simp
qed

declare parse_loop.simps [simp del]

definition parse :: "scf_parser \<Rightarrow> byte list \<Rightarrow> scf_container" where
  "parse p data =
     \<lparr>original_data = data, scf_size = length data, scf_encoding = encoding p,
      text_segments = parse_loop p data 0 []\<rparr>"

definition extract_texts :: "scf_container \<Rightarrow> py_str list" where
  "extract_texts parsed_data = map seg_text (text_segments parsed_data)"

subsection \<open>\<open>rebuild\<close>\<close>

text \<open>The two messages \<open>rebuild\<close> can print.\<close>

datatype warning =
    CountMismatch nat nat   \<comment> \<open>\<open>Text count mismatch! Expected ..., got ...\<close>\<close>
  | EncodeError nat         \<comment> \<open>\<open>Error encoding text at offset ...\<close>\<close>

text \<open>\<open>del data[a:b]\<close> on a bytearray, with Python's clamping of slice bounds.\<close>

definition del_slice :: "'a list \<Rightarrow> nat \<Rightarrow> nat \<Rightarrow> 'a list" where
  "del_slice data a b = (if a \<le> b then take a data @ drop b data else data)"

text \<open>\<open>data.insert(k, x)\<close>: an index beyond the end appends.\<close>

definition insert_at :: "'a list \<Rightarrow> nat \<Rightarrow> 'a \<Rightarrow> 'a list" where
  "insert_at data k x = take k data @ x # drop k data"

text \<open>\<open>for j, byte in enumerate(new_bytes): data.insert(offset + j, byte)\<close>\<close>

fun insert_all :: "'a list \<Rightarrow> nat \<Rightarrow> 'a list \<Rightarrow> 'a list" where
  "insert_all data k [] = data"
| "insert_all data k (x # xs) = insert_all (insert_at data k x) (k + 1) xs"

text \<open>
  The body of the \<open>for\<close> loop of \<open>rebuild\<close> for one segment and its replacement text.
  The encoder is called before the buffer is touched, so a raised exception leaves the
  buffer as it was and only prints.
\<close>

definition replace_segment ::
  "scf_parser \<Rightarrow> text_segment \<Rightarrow> py_str \<Rightarrow> byte list \<times> warning list \<Rightarrow> byte list \<times> warning list" where
  "replace_segment p seg new_text st =
     (case encode_strict p new_text of
        None \<Rightarrow> (fst st, snd st @ [EncodeError (seg_offset seg)])
      | Some encoded \<Rightarrow>
          (let new_bytes = encoded @ [0];
               offset = seg_offset seg;
               old_length = seg_length seg;
               data1 = del_slice (fst st) offset (offset + old_length)
           in (insert_all data1 offset new_bytes, snd st)))"

text \<open>
  \<open>for i in range(n - 1, -1, -1)\<close>: the indices \<open>n - 1\<close> down to \<open>0\<close>. It is only called
  with \<open>n = min(len(segments), len(new_texts))\<close>, so both index reads are in range.
\<close>

fun rebuild_loop ::
  "scf_parser \<Rightarrow> text_segment list \<Rightarrow> py_str list \<Rightarrow> nat \<Rightarrow> byte list \<times> warning list
    \<Rightarrow> byte list \<times> warning list" where
  "rebuild_loop p segments new_texts 0 st = st"
| "rebuild_loop p segments new_texts (Suc i) st =
     rebuild_loop p segments new_texts i (replace_segment p (segments ! i) (new_texts ! i) st)"

text \<open>
  \<open>rebuild(parsed_data, new_texts=None)\<close>. The argument is \<open>None\<close> when it is left out.
  \<open>not new_texts\<close> holds for \<open>None\<close> and for the empty list. The result is the returned
  bytes and the messages printed, in order.
\<close>

definition rebuild ::
  "scf_parser \<Rightarrow> scf_container \<Rightarrow> py_str list option \<Rightarrow> byte list \<times> warning list" where
  "rebuild p parsed_data new_texts_opt =
     (let data = original_data parsed_data in
      case new_texts_opt of
        None \<Rightarrow> (data, [])
      | Some new_texts \<Rightarrow>
          if new_texts = [] then (data, [])
          else
            (let segments = text_segments parsed_data;
                 warns = (if length new_texts \<noteq> length segments
                          then [CountMismatch (length segments) (length new_texts)] else [])
             in rebuild_loop p segments new_texts
                  (min (length segments) (length new_texts)) (data, warns)))"

text \<open>
  A small codec for concrete inputs. It agrees with Python's \<open>shift_jis\<close> codec on the
  bytes and characters used below: a byte under \<open>0x80\<close> is the ASCII character of that
  number, the pair \<open>0x82 0xA0\<close> is HIRAGANA LETTER A (U+3042), and with
  \<open>errors='ignore'\<close> a lead byte \<open>0x82\<close> that no trail byte follows is dropped. Every
  other byte is dropped and every other character is refused by the encoder; the
  theorems below never rely on that part.
\<close>

fun demo_decode :: "byte list \<Rightarrow> py_str" where
  "demo_decode [] = []"
| "demo_decode [b] = (if b < 0x80 then [unat b] else [])"
| "demo_decode (b # c # bs) =
     (if b < 0x80 then unat b # demo_decode (c # bs)
      else if b = 0x82 \<and> c = 0xA0 then 0x3042 # demo_decode bs
      else demo_decode (c # bs))"

fun demo_encode :: "py_str \<Rightarrow> byte list option" where
  "demo_encode [] = Some []"
| "demo_encode (c # cs) =
     (case demo_encode cs of
        None \<Rightarrow> None
      | Some bs \<Rightarrow>
          if c < 0x80 then Some (of_nat c # bs)
          else if c = 0x3042 then Some (0x82 # 0xA0 # bs)
          else None)"

definition demo_parser :: scf_parser where
  "demo_parser =
     \<lparr>encoding = ''shift_jis'', decode_ignore = (\<lambda>bs. Some (demo_decode bs)),
      encode_strict = demo_encode\<rparr>"

section \<open>The index table: \<open>PFTParser\<close>\<close>

text \<open>
  An index entry is the tuple \<open>(name, index, size)\<close>. The exceptions of the archive layer:
  \<open>struct.error\<close> (the spec's FormatError) from \<open>struct.unpack\<close> on a buffer of the wrong
  length and from \<open>struct.pack\<close> on a number that does not fit its field; \<open>ValueError\<close>
  from \<open>max\<close> of an empty sequence; the exception of \<open>open\<close> or \<open>os.makedirs\<close> on a path
  that the file system refuses (\<open>FileNotFoundError\<close>, \<open>IsADirectoryError\<close>,
  \<open>NotADirectoryError\<close>, or \<open>ValueError\<close> for an embedded null character), with the path;
  and \<open>UnicodeEncodeError\<close> from \<open>name.encode('ascii')\<close>, with the name.
\<close>

type_synonym entry = "string \<times> nat \<times> nat"

datatype error = StructError | ValueError | PathError string | UnicodeEncodeError string

text \<open>\<open>struct.unpack('<I', b)[0]\<close> for a 4-byte \<open>b\<close>: little-endian, unsigned.\<close>

definition le_u32 :: "byte list \<Rightarrow> nat" where
  "le_u32 bs = foldr (\<lambda>b acc. unat b + 256 * acc) bs 0"

text \<open>\<open>name_bytes.decode('ascii', errors='ignore').rstrip('\x00')\<close>\<close>

definition ascii_ignore :: "byte list \<Rightarrow> string" where
  "ascii_ignore bs = map (\<lambda>b. char_of (unat b)) (filter (\<lambda>b. b < 0x80) bs)"

definition rstrip_nul :: "string \<Rightarrow> string" where
  "rstrip_nul s = rev (dropWhile (\<lambda>c. c = CHR 0x00) (rev s))"

text \<open>
  The loop of \<open>read\<close>, from \<open>offset\<close>, with the entries read so far. Inside the loop
  \<open>offset + 16 <= len(data)\<close> holds, so both \<open>struct.unpack('<I', ...)\<close> calls get 4 bytes.
\<close>

function read_entries :: "byte list \<Rightarrow> nat \<Rightarrow> entry list \<Rightarrow> entry list" where
  "read_entries data offset entries =
     (if offset < length data then
        (if offset + 16 > length data then entries
         else
           (let name_bytes = py_slice data offset (offset + 8);
                name = rstrip_nul (ascii_ignore name_bytes)
            in if name = [] then entries
               else
                 (let idx = le_u32 (py_slice data (offset + 8) (offset + 12));
                      sz = le_u32 (py_slice data (offset + 12) (offset + 16))
                  in read_entries data (offset + 16) (entries @ [(name, idx, sz)]))))
      else entries)"
  by pat_completeness auto
termination
  by (relation "measure (\<lambda>(data, offset, entries). length data - offset)") auto

declare read_entries.simps [simp del]

text \<open>
  \<open>PFTParser.read\<close> on the bytes of the index file. \<open>struct.unpack('<IIHH4x', data[0:16])\<close>
  raises unless the slice has exactly 16 bytes. On success the result is the retained
  header and the entries.
\<close>

definition read :: "byte list \<Rightarrow> error + (byte list \<times> entry list)" where
  "read data =
     (let header = py_slice data 0 16 in
      if length header \<noteq> 16 then Inl StructError
      else Inr (header, read_entries data 16 []))"

subsection \<open>The bytes that \<open>write\<close> emits\<close>

text \<open>\<open>struct.pack('<I', n)\<close>: it raises unless \<open>0 <= n < 2 ** 32\<close>.\<close>

definition pack_u32 :: "nat \<Rightarrow> byte list option" where
  "pack_u32 n =
     (if n < 2 ^ 32
      then Some [of_nat n, of_nat (n div 256), of_nat (n div 65536), of_nat (n div 16777216)]
      else None)"

text \<open>\<open>name.encode('ascii')\<close>: it raises on a character beyond U+007F.\<close>

definition encode_ascii :: "string \<Rightarrow> byte list option" where
  "encode_ascii name =
     (if list_all (\<lambda>c. (of_char c :: nat) < 128) name
      then Some (map (\<lambda>c. of_nat (of_char c)) name)
      else None)"

text \<open>\<open>bs[:8].ljust(8, b'\x00')\<close>\<close>

definition pad_name :: "byte list \<Rightarrow> byte list" where
  "pad_name bs = take 8 bs @ replicate (8 - length (take 8 bs)) 0"

text \<open>
  The header that \<open>write\<close> emits for \<open>n\<close> entries. \<open>self.header\<close> is \<open>None\<close> or the bytes that
  \<open>read\<close> retained; \<open>struct.pack_into('<I', header_data, 4, n)\<close> raises when the buffer is
  shorter than 8 bytes.
\<close>

definition write_header :: "byte list option \<Rightarrow> nat \<Rightarrow> error + byte list" where
  "write_header header n =
     (case pack_u32 n of
        None \<Rightarrow> Inl StructError
      | Some count \<Rightarrow>
          (case header of
             None \<Rightarrow> Inr ([0x10, 0x00, 0x00, 0x08] @ count @ replicate 8 0)
           | Some h \<Rightarrow>
               if h = [] then Inr ([0x10, 0x00, 0x00, 0x08] @ count @ replicate 8 0)
               else if length h < 8 then Inl StructError
               else Inr (take 4 h @ count @ drop 8 h)))"

text \<open>
  The loop \<open>for name, idx, size in entries:\<close> of \<open>write\<close>, with the bytes written to the open
  file so far. When an entry raises, the bytes written before it stay in the file.
\<close>

fun write_entries :: "entry list \<Rightarrow> byte list \<Rightarrow> (error \<times> byte list) + byte list" where
  "write_entries [] out = Inr out"
| "write_entries ((name, idx, sz) # entries) out =
     (case encode_ascii name of
        None \<Rightarrow> Inl (UnicodeEncodeError name, out)
      | Some encoded \<Rightarrow>
          (case (pack_u32 idx, pack_u32 sz) of
             (Some a, Some b) \<Rightarrow> write_entries entries (out @ pad_name encoded @ a @ b)
           | _ \<Rightarrow> Inl (StructError, out)))"

section \<open>The file system\<close>

text \<open>
  Paths are resolved by the operating system, not by the repository, so the resolution is
  a parameter: a path names nothing that can be opened (a missing directory on the way, an
  embedded null character), a directory, or a file. Two paths that resolve to the same file
  are the same file (\<open>A.SCF\<close> and \<open>./A.SCF\<close>, or two spellings on a file system that folds
  case). A file that a path resolves to need not exist yet: the store holds the contents
  of the files that do. The resolver gives the state of the directories once
  \<open>os.makedirs(output_dir, exist_ok=True)\<close> has run; exhausted memory or disk space is not
  modelled.
\<close>

datatype 'f path_status = NoEntry | IsDir | IsFile 'f

type_synonym 'f resolver = "string \<Rightarrow> 'f path_status"
type_synonym 'f store = "'f \<rightharpoonup> byte list"

text \<open>\<open>os.path.join(a, b)\<close> of \<open>posixpath\<close>.\<close>

definition path_join :: "string \<Rightarrow> string \<Rightarrow> string" where
  "path_join a b =
     (if b \<noteq> [] \<and> hd b = CHR ''/'' then b
      else if a = [] \<or> last a = CHR ''/'' then a @ b
      else a @ ''/'' @ b)"

text \<open>\<open>with open(path, 'wb') as f: f.write(data)\<close>\<close>

definition write_file :: "'f resolver \<Rightarrow> 'f store \<Rightarrow> string \<Rightarrow> byte list \<Rightarrow> error + 'f store" where
  "write_file rs files path data =
     (case rs path of
        IsFile f \<Rightarrow> Inr (files(f \<mapsto> data))
      | _ \<Rightarrow> Inl (PathError path))"

text \<open>
  \<open>os.path.exists(path)\<close>: true of a directory and of a file that exists; false of a path
  that cannot be resolved, also of one with an embedded null character (Python 3.8 and
  later).
\<close>

definition path_exists :: "'f resolver \<Rightarrow> 'f store \<Rightarrow> string \<Rightarrow> bool" where
  "path_exists rs files path =
     (case rs path of
        NoEntry \<Rightarrow> False
      | IsDir \<Rightarrow> True
      | IsFile f \<Rightarrow> files f \<noteq> None)"

text \<open>\<open>with open(path, 'rb') as f: data = f.read()\<close>\<close>

definition read_file :: "'f resolver \<Rightarrow> 'f store \<Rightarrow> string \<Rightarrow> error + byte list" where
  "read_file rs files path =
     (case rs path of
        IsFile f \<Rightarrow> (case files f of None \<Rightarrow> Inl (PathError path) | Some data \<Rightarrow> Inr data)
      | _ \<Rightarrow> Inl (PathError path))"

text \<open>
  \<open>PFTParser.write(output_path, entries)\<close> (the name \<open>write\<close> is taken in Isabelle). The
  file is opened, and so emptied, before the first byte is computed. The result is the
  store after the call, also when it raises.
\<close>

definition write_pft ::
  "'f resolver \<Rightarrow> 'f store \<Rightarrow> byte list option \<Rightarrow> string \<Rightarrow> entry list
    \<Rightarrow> (error \<times> 'f store) + 'f store" where
  "write_pft rs files header output_path entries =
     (case rs output_path of
        IsFile f \<Rightarrow>
          (case write_header header (length entries) of
             Inl e \<Rightarrow> Inl (e, files(f \<mapsto> []))
           | Inr header_data \<Rightarrow>
               (case write_entries entries header_data of
                  Inl (e, out) \<Rightarrow> Inl (e, files(f \<mapsto> out))
                | Inr out \<Rightarrow> Inr (files(f \<mapsto> out))))
      | _ \<Rightarrow> Inl (PathError output_path, files))"

section \<open>The block archive: \<open>SDKArchive\<close>\<close>

definition BLOCK_SIZE :: nat where
  "BLOCK_SIZE = 2048"

text \<open>The two attributes of an \<open>SDKArchive\<close> object.\<close>

record sdk_archive =
  archive_path :: string
  index_path :: string

text \<open>\<open>os.path.join(directory, f"{name}.SCF")\<close>\<close>

definition unit_path :: "string \<Rightarrow> string \<Rightarrow> string" where
  "unit_path directory name = path_join directory (name @ ''.SCF'')"

subsection \<open>\<open>unpack\<close>\<close>

text \<open>
  The two lines \<open>unpack\<close> prints per entry: \<open>Extracted name block offset size\<close> and the
  range error \<open>name block offset size archive_size\<close>.
\<close>

datatype unpack_event =
    Extracted string nat nat nat
  | OutOfRange string nat nat nat nat

record 'f unpack_state =
  unpack_files :: "'f store"
  extracted :: nat
  unpack_log :: "unpack_event list"

text \<open>
  The body of \<open>for name, idx, size in entries:\<close>. No handler stands around \<open>open\<close>, so a
  path that cannot be opened raises out of the loop.
\<close>

fun unpack_entry ::
  "'f resolver \<Rightarrow> byte list \<Rightarrow> string \<Rightarrow> entry \<Rightarrow> 'f unpack_state \<Rightarrow> error + 'f unpack_state" where
  "unpack_entry rs archive_data output_dir (name, idx, sz) st =
     (let offset = idx * BLOCK_SIZE in
      if offset + sz \<le> length archive_data then
        (let scf_data = py_slice archive_data offset (offset + sz);
             output_path = unit_path output_dir name
         in case write_file rs (unpack_files st) output_path scf_data of
              Inl e \<Rightarrow> Inl e
            | Inr files \<Rightarrow>
                Inr (st\<lparr>unpack_files := files,
                        extracted := extracted st + 1,
                        unpack_log := unpack_log st @ [Extracted name idx offset sz]\<rparr>))
      else
        Inr (st\<lparr>unpack_log := unpack_log st
                  @ [OutOfRange name idx offset sz (length archive_data)]\<rparr>))"

text \<open>
  The loop. An exception ends it; the files written before stay written, so the state at
  the raise is kept beside the error.
\<close>

fun unpack_loop ::
  "'f resolver \<Rightarrow> byte list \<Rightarrow> string \<Rightarrow> entry list \<Rightarrow> 'f unpack_state
    \<Rightarrow> (error \<times> 'f unpack_state) + 'f unpack_state" where
  "unpack_loop rs archive_data output_dir [] st = Inr st"
| "unpack_loop rs archive_data output_dir (e # entries) st =
     (case unpack_entry rs archive_data output_dir e st of
        Inl err \<Rightarrow> Inl (err, st)
      | Inr st' \<Rightarrow> unpack_loop rs archive_data output_dir entries st')"

text \<open>
  \<open>unpack\<close> from the point where the index and the archive have been read: on the entries
  that \<open>self.pft.read()\<close> returned and the bytes of the archive file. \<open>os.makedirs\<close> raises
  unless the output directory is a directory afterwards.
\<close>

definition unpack ::
  "'f resolver \<Rightarrow> 'f store \<Rightarrow> byte list \<Rightarrow> entry list \<Rightarrow> string
    \<Rightarrow> (error \<times> 'f unpack_state) + 'f unpack_state" where
  "unpack rs files archive_data entries output_dir =
     (let st = \<lparr>unpack_files = files, extracted = 0, unpack_log = []\<rparr> in
      case rs output_dir of
        IsDir \<Rightarrow> unpack_loop rs archive_data output_dir entries st
      | _ \<Rightarrow> Inl (PathError output_dir, st))"

subsection \<open>\<open>repack\<close>\<close>

text \<open>\<open>max\<close> of a sequence: it raises on an empty one.\<close>

fun py_max :: "nat list \<Rightarrow> nat option" where
  "py_max [] = None"
| "py_max (x # xs) = Some (fold max xs x)"

text \<open>
  The slice assignment \<open>buf[a:b] = xs\<close> on a bytearray, for \<open>a <= b\<close>: both bounds are
  clamped to the length of the buffer, and the buffer grows or shrinks when the slice and
  \<open>xs\<close> differ in length.
\<close>

definition write_slice :: "'a list \<Rightarrow> nat \<Rightarrow> nat \<Rightarrow> 'a list \<Rightarrow> 'a list" where
  "write_slice buf a b xs = take a buf @ xs @ drop b buf"

datatype repack_event =
    Missing string
  | Packed string nat nat nat

record repack_state =
  archive_data :: "byte list"
  new_entries :: "entry list"
  repack_log :: "repack_event list"

text \<open>
  The body of \<open>for name, orig_idx, orig_size in original_entries:\<close>. \<open>os.path.exists\<close> is
  true of a directory too, and \<open>open\<close> then raises.
\<close>

fun repack_entry ::
  "'f resolver \<Rightarrow> 'f store \<Rightarrow> string \<Rightarrow> entry \<Rightarrow> repack_state \<Rightarrow> error + repack_state" where
  "repack_entry rs files input_dir (name, orig_idx, orig_size) st =
     (let scf_path = unit_path input_dir name in
      if \<not> path_exists rs files scf_path
      then Inr (st\<lparr>repack_log := repack_log st @ [Missing name]\<rparr>)
      else
        (case read_file rs files scf_path of
           Inl e \<Rightarrow> Inl e
         | Inr scf_data \<Rightarrow>
             (let new_size = length scf_data;
                  offset = orig_idx * BLOCK_SIZE
              in Inr (st\<lparr>archive_data :=
                           write_slice (archive_data st) offset (offset + new_size) scf_data,
                         new_entries := new_entries st @ [(name, orig_idx, new_size)],
                         repack_log := repack_log st @ [Packed name orig_idx offset new_size]\<rparr>))))"

fun repack_loop ::
  "'f resolver \<Rightarrow> 'f store \<Rightarrow> string \<Rightarrow> entry list \<Rightarrow> repack_state \<Rightarrow> error + repack_state" where
  "repack_loop rs files input_dir [] st = Inr st"
| "repack_loop rs files input_dir (e # entries) st =
     (case repack_entry rs files input_dir e st of
        Inl err \<Rightarrow> Inl err
      | Inr st' \<Rightarrow> repack_loop rs files input_dir entries st')"

text \<open>
  The part of \<open>repack\<close> that builds the new archive in memory, from \<open>max_block = ...\<close> to the
  end of the loop. No file is written here.
\<close>

definition repack_build ::
  "'f resolver \<Rightarrow> 'f store \<Rightarrow> string \<Rightarrow> entry list \<Rightarrow> error + repack_state" where
  "repack_build rs files input_dir original_entries =
     (case py_max (map (\<lambda>(name, idx, sz). idx) original_entries) of
        None \<Rightarrow> Inl ValueError
      | Some max_block \<Rightarrow>
          (let total_blocks = max_block + 1
           in repack_loop rs files input_dir original_entries
                \<lparr>archive_data = replicate (total_blocks * BLOCK_SIZE) 0,
                 new_entries = [], repack_log = []\<rparr>))"

text \<open>\<open>x or default\<close> for an optional path: \<open>None\<close> and the empty string give the default.\<close>

definition path_or :: "string option \<Rightarrow> string \<Rightarrow> string" where
  "path_or x d = (case x of None \<Rightarrow> d | Some p \<Rightarrow> if p = [] then d else p)"

text \<open>
  \<open>repack\<close> from the point where the original index has been read: \<open>header\<close> and
  \<open>original_entries\<close> are what \<open>self.pft.read()\<close> retained and returned. The new archive
  is written to \<open>output_archive\<close>, which is the path of the original archive when the
  caller gives none, and then the new index to \<open>output_index\<close>. The result is the store
  after the call, beside the error when it raises.
\<close>

definition repack ::
  "'f resolver \<Rightarrow> 'f store \<Rightarrow> sdk_archive \<Rightarrow> byte list \<Rightarrow> entry list \<Rightarrow> string
    \<Rightarrow> string option \<Rightarrow> string option
    \<Rightarrow> (error \<times> 'f store) + ('f store \<times> repack_state)" where
  "repack rs files self header original_entries input_dir output_archive output_index =
     (let output_archive = path_or output_archive (archive_path self);
          output_index = path_or output_index (index_path self)
      in case repack_build rs files input_dir original_entries of
           Inl e \<Rightarrow> Inl (e, files)
         | Inr st \<Rightarrow>
             (case write_file rs files output_archive (archive_data st) of
                Inl e \<Rightarrow> Inl (e, files)
              | Inr files1 \<Rightarrow>
                  (case write_pft rs files1 (Some header) output_index (new_entries st) of
                     Inl (e, files2) \<Rightarrow> Inl (e, files2)
                   | Inr files2 \<Rightarrow> Inr (files2, st))))"

section \<open>Notions used to state the properties\<close>

text \<open>
  A list of segments is chained from \<open>b\<close> when the first one starts at or after \<open>b\<close> and
  each later one starts at or after the end of the one before it: ascending by offset and
  never overlapping.
\<close>

fun chained :: "nat \<Rightarrow> text_segment list \<Rightarrow> bool" where
  "chained b [] = True"
| "chained b (s # ss) = (b \<le> seg_offset s \<and> chained (seg_offset s + seg_length s) ss)"

text \<open>
  A segment agrees with the snapshot when its raw bytes are the bytes of the snapshot at
  \<open>[offset, offset + length)\<close>, its length is the number of raw bytes, and its text is the
  decoding of all raw bytes but the last one.
\<close>

definition consistent_segment :: "scf_parser \<Rightarrow> byte list \<Rightarrow> text_segment \<Rightarrow> bool" where
  "consistent_segment p data s \<longleftrightarrow>
     seg_original s = py_slice data (seg_offset s) (seg_offset s + seg_length s)
     \<and> seg_length s = length (seg_original s)
     \<and> decode_ignore p (butlast (seg_original s)) = Some (seg_text s)"

text \<open>
  A container is well formed when its segments are chained and lie inside the snapshot.
\<close>

definition well_formed :: "scf_container \<Rightarrow> bool" where
  "well_formed c \<longleftrightarrow>
     chained 0 (text_segments c)
     \<and> (\<forall>s \<in> set (text_segments c). seg_offset s + seg_length s \<le> length (original_data c))"

text \<open>
  The rebuilt unit as the spec describes it, written as one forward pass over the snapshot
  from position \<open>pos\<close>: copy the bytes up to the next segment, put the replacement (the
  encoded text and a terminator, or the bytes of the segment's span when the text cannot be
  encoded), go on after the segment; after the last pair copy the rest of the snapshot.
\<close>

definition replacement :: "scf_parser \<Rightarrow> byte list \<Rightarrow> text_segment \<Rightarrow> py_str \<Rightarrow> byte list" where
  "replacement p data s t =
     (case encode_strict p t of
        None \<Rightarrow> py_slice data (seg_offset s) (seg_offset s + seg_length s)
      | Some encoded \<Rightarrow> encoded @ [0])"

fun spliced :: "scf_parser \<Rightarrow> byte list \<Rightarrow> nat \<Rightarrow> (text_segment \<times> py_str) list \<Rightarrow> byte list" where
  "spliced p data pos [] = drop pos data"
| "spliced p data pos ((s, t) # rest) =
     py_slice data pos (seg_offset s) @ replacement p data s t
       @ spliced p data (seg_offset s + seg_length s) rest"

text \<open>A unit file with two text segments, for concrete instances.\<close>

definition demo_unit :: "byte list" where
  "demo_unit = [0x82, 0xA0, 0, 0x41, 0, 0x82, 0xA0, 0x42, 0]"

text \<open>
  An index with two entries, for concrete instances.
\<close>

definition demo_entries :: "entry list" where
  "demo_entries = [(''SCN002'', 0, 2), (''SCN003'', 5, 50)]"

text \<open>
  A small file system for concrete instances: a working directory that holds the
  directory \<open>out\<close> and nothing else. A path splits at \<open>/\<close>; empty components and \<open>.\<close>
  name the directory they stand in. A path with a null character, from the root or through
  \<open>..\<close>, and a path into a directory that does not exist cannot be opened. This is what
  POSIX does on the paths used below; no instance uses a path from the root or through \<open>..\<close>.
\<close>

fun split_path :: "string \<Rightarrow> string list" where
  "split_path [] = [[]]"
| "split_path (c # cs) =
     (if c = CHR ''/'' then [] # split_path cs
      else (case split_path cs of [] \<Rightarrow> [[c]] | x # xs \<Rightarrow> (c # x) # xs))"

definition demo_resolver :: "string resolver" where
  "demo_resolver path =
     (if CHR 0x00 \<in> set path \<or> (path \<noteq> [] \<and> hd path = CHR ''/'') then NoEntry
      else
        (case filter (\<lambda>c. c \<noteq> [] \<and> c \<noteq> ''.'') (split_path path) of
           [f] \<Rightarrow> if f = ''out'' then IsDir else if f = ''..'' then NoEntry else IsFile f
         | [d, f] \<Rightarrow> if d = ''out'' \<and> f \<noteq> ''..'' then IsFile (''out/'' @ f) else NoEntry
         | _ \<Rightarrow> NoEntry))"

text \<open>
  The object \<open>SDKArchive('scene.DSK')\<close>.
\<close>

definition demo_sdk :: sdk_archive where
  "demo_sdk = \<lparr>archive_path = ''scene.DSK'', index_path = ''scene.PFT''\<rparr>"

text \<open>
  The bytes that \<open>repack\<close> holds in its buffer when it opens the output archive, or the
  exception raised before; and the store that a call of \<open>repack\<close> leaves behind, whether it
  returned or raised.
\<close>

definition repacked :: "'f resolver \<Rightarrow> 'f store \<Rightarrow> string \<Rightarrow> entry list \<Rightarrow> error + byte list" where
  "repacked rs files input_dir original_entries =
     (case repack_build rs files input_dir original_entries of
        Inl e \<Rightarrow> Inl e
      | Inr st \<Rightarrow> Inr (archive_data st))"

definition final_files :: "(error \<times> 'f store) + ('f store \<times> repack_state) \<Rightarrow> 'f store" where
  "final_files result = (case result of Inl (e, files) \<Rightarrow> files | Inr (files, st) \<Rightarrow> files)"

text \<open>
  \<open>max(blockIndex)\<close> over the entries of an index.
\<close>

definition max_block_of :: "entry list \<Rightarrow> nat" where
  "max_block_of entries = Max (set (map (\<lambda>(name, idx, sz). idx) entries))"

text \<open>
  A position of the archive is covered when it lies in the span
  \<open>[blockIndex * 2048, blockIndex * 2048 + byteSize)\<close> of some entry; the gaps of an archive
  are zero when every position that no entry covers holds a zero byte; the entries are in
  range when the span of each ends inside the archive.
\<close>

definition covered :: "entry list \<Rightarrow> nat \<Rightarrow> bool" where
  "covered entries pos \<longleftrightarrow>
     (\<exists>(name, idx, sz) \<in> set entries. idx * BLOCK_SIZE \<le> pos \<and> pos < idx * BLOCK_SIZE + sz)"

definition gaps_zero :: "byte list \<Rightarrow> entry list \<Rightarrow> bool" where
  "gaps_zero archive entries \<longleftrightarrow>
     (\<forall>pos < length archive. \<not> covered entries pos \<longrightarrow> archive ! pos = 0)"

definition all_in_range :: "byte list \<Rightarrow> entry list \<Rightarrow> bool" where
  "all_in_range archive entries \<longleftrightarrow>
     (\<forall>(name, idx, sz) \<in> set entries. idx * BLOCK_SIZE + sz \<le> length archive)"

text \<open>
  The unit files of the entries are separate when the path of every entry resolves to a
  file and no two entries resolve to the same file.
\<close>

definition is_file :: "'f path_status \<Rightarrow> bool" where
  "is_file s = (case s of IsFile f \<Rightarrow> True | _ \<Rightarrow> False)"

definition unit_files :: "'f resolver \<Rightarrow> string \<Rightarrow> entry list \<Rightarrow> 'f path_status list" where
  "unit_files rs directory entries = map (\<lambda>(name, idx, sz). rs (unit_path directory name)) entries"

definition separate_files :: "'f resolver \<Rightarrow> string \<Rightarrow> entry list \<Rightarrow> bool" where
  "separate_files rs directory entries \<longleftrightarrow>
     list_all is_file (unit_files rs directory entries)
     \<and> distinct (unit_files rs directory entries)"

text \<open>
  The replacement files fit under a limit when no unit path is a directory and each file
  that is present ends at or before the limit, counted from the block of its entry; a
  position is written when it lies in the span that a present file occupies from the block
  of its entry.
\<close>

definition all_fit :: "'f resolver \<Rightarrow> 'f store \<Rightarrow> string \<Rightarrow> entry list \<Rightarrow> nat \<Rightarrow> bool" where
  "all_fit rs files input_dir entries limit \<longleftrightarrow>
     (\<forall>(name, idx, sz) \<in> set entries.
        case rs (unit_path input_dir name) of
          NoEntry \<Rightarrow> True
        | IsDir \<Rightarrow> False
        | IsFile f \<Rightarrow>
            (case files f of
               None \<Rightarrow> True
             | Some d \<Rightarrow> idx * BLOCK_SIZE + length d \<le> limit))"

definition written :: "'f resolver \<Rightarrow> 'f store \<Rightarrow> string \<Rightarrow> entry list \<Rightarrow> nat \<Rightarrow> bool" where
  "written rs files input_dir entries pos \<longleftrightarrow>
     (\<exists>(name, idx, sz) \<in> set entries.
        case rs (unit_path input_dir name) of
          IsFile f \<Rightarrow>
            (case files f of
               None \<Rightarrow> False
             | Some d \<Rightarrow> idx * BLOCK_SIZE \<le> pos \<and> pos < idx * BLOCK_SIZE + length d)
        | _ \<Rightarrow> False)"

text \<open>
  An archive of six blocks for the index above, and a store in which the unit \<open>A\<close> is one
  byte longer than a block, beside an original archive of one block.
\<close>

definition demo_archive :: "byte list" where
  "demo_archive = [1, 2] @ replicate 10238 0 @ replicate 50 3 @ replicate 1998 0"

definition demo_oversize :: "string store" where
  "demo_oversize = [''out/A.SCF'' \<mapsto> replicate 2049 7, ''scene.DSK'' \<mapsto> replicate 2048 0]"

section \<open>Properties of the segmented-text codec\<close>

subsection \<open>The scan\<close>

lemma scan_run_eq:
  "scan_run data i segment =
     (i + length (takeWhile (\<lambda>b. b \<noteq> 0) (drop i data)),
      segment @ takeWhile (\<lambda>b. b \<noteq> 0) (drop i data))"
proof (induction data i segment rule: scan_run.induct)
  case (1 data i segment)
  show ?case
  proof (cases "i < length data")
    case inb: True
    then have d: "drop i data = data ! i # drop (Suc i) data"
      by (simp add: Cons_nth_drop_Suc)
    show ?thesis
    proof (cases "data ! i = 0")
      case True
      with inb d show ?thesis by (subst scan_run.simps) simp
    next
      case False
      with inb 1 have "scan_run data (i + 1) (segment @ [data ! i]) =
        (i + 1 + length (takeWhile (\<lambda>b. b \<noteq> 0) (drop (i + 1) data)),
         (segment @ [data ! i]) @ takeWhile (\<lambda>b. b \<noteq> 0) (drop (i + 1) data))"
        by simp
      with inb False d show ?thesis by (subst scan_run.simps) simp
    qed
  next
    case False
    then show ?thesis by (subst scan_run.simps) simp
  qed
qed

lemma takeWhile_is_take: "takeWhile P xs = take (length (takeWhile P xs)) xs"
  by (induction xs) auto

lemma next_run_slice:
  assumes "next_run data i = (i2, segment)" and "i \<le> length data"
  shows "i \<le> i2 \<and> i2 \<le> length data \<and> segment = take (i2 - i) (drop i data)"
proof -
  define run where "run = takeWhile (\<lambda>b. b \<noteq> 0) (drop i data)"
  define i1 where "i1 = i + length run"
  have sr: "scan_run data i [] = (i1, run)"
    by (simp add: scan_run_eq run_def i1_def)
  have run_take: "run = take (length run) (drop i data)"
    unfolding run_def by (rule takeWhile_is_take)
  have len_le: "length run \<le> length (drop i data)"
    unfolding run_def by (rule length_takeWhile_le)
  show ?thesis
  proof (cases "i1 < length data \<and> data ! i1 = 0")
    case True
    then have eq: "i2 = i1 + 1" "segment = run @ [0]"
      using assms sr by (simp_all add: next_run_def take_terminator_def)
    have "take (Suc (length run)) (drop i data) = take (length run) (drop i data) @ [drop i data ! length run]"
    proof (rule take_Suc_conv_app_nth)
      from True have "i + length run < length data" by (simp add: i1_def)
      then show "length run < length (drop i data)" by simp
    qed
    moreover have "drop i data ! length run = 0"
      using True by (simp add: i1_def)
    ultimately have "take (Suc (length run)) (drop i data) = run @ [0]"
      using run_take by simp
    with eq True show ?thesis by (simp add: i1_def)
  next
    case False
    then have eq: "i2 = i1" "segment = run"
      using assms sr by (auto simp add: next_run_def take_terminator_def)
    from len_le assms(2) have "i1 \<le> length data" by (simp add: i1_def)
    with eq run_take show ?thesis by (simp add: i1_def)
  qed
qed

lemma record_segment_acc:
  "record_segment p start segment segs = segs @ record_segment p start segment []"
  by (simp add: record_segment_def Let_def split: option.splits)

lemma record_segment_cases:
  "record_segment p start segment [] = []
   \<or> (\<exists>decoded. decode_ignore p (butlast segment) = Some decoded
        \<and> list_ex is_japanese decoded \<and> 1 < length segment
        \<and> record_segment p start segment [] =
            [\<lparr>seg_offset = start, seg_length = length segment,
              seg_original = segment, seg_text = decoded\<rparr>])"
  by (simp add: record_segment_def Let_def split: option.splits)

lemma parse_loop_done: "\<not> i < length data \<Longrightarrow> parse_loop p data i segs = segs"
  by (subst parse_loop.simps) simp

lemma parse_loop_acc: "parse_loop p data i segs = segs @ parse_loop p data i []"
proof (induction "length data - i" arbitrary: i segs rule: less_induct)
  case less
  show ?case
  proof (cases "i < length data")
    case True
    define i2 where "i2 = fst (next_run data i)"
    define run where "run = snd (next_run data i)"
    have adv: "i < i2" using next_run_advances [OF True] by (simp add: i2_def)
    then have m: "length data - i2 < length data - i" using True by simp
    have "parse_loop p data i segs = parse_loop p data i2 (record_segment p i run segs)"
      using True by (subst parse_loop.simps) (simp add: Let_def i2_def run_def)
    also have "\<dots> = record_segment p i run segs @ parse_loop p data i2 []"
      by (rule less [OF m])
    also have "\<dots> = segs @ record_segment p i run [] @ parse_loop p data i2 []"
      by (subst record_segment_acc) simp
    also have "record_segment p i run [] @ parse_loop p data i2 [] =
        parse_loop p data i2 (record_segment p i run [])"
      by (rule less [OF m, symmetric])
    also have "\<dots> = parse_loop p data i []"
      using True by (subst (2) parse_loop.simps) (simp add: Let_def i2_def run_def)
    finally show ?thesis .
  next
    case False
    then show ?thesis by (simp add: parse_loop_done)
  qed
qed

lemma parse_loop_unfold:
  assumes "i < length data"
  shows "parse_loop p data i [] =
     record_segment p i (snd (next_run data i)) [] @ parse_loop p data (fst (next_run data i)) []"
proof -
  have "parse_loop p data i [] =
      parse_loop p data (fst (next_run data i)) (record_segment p i (snd (next_run data i)) [])"
    using assms by (subst parse_loop.simps) (simp add: Let_def)
  then show ?thesis by (subst (asm) parse_loop_acc) 
qed

lemma chained_mono: "chained b ss \<Longrightarrow> a \<le> b \<Longrightarrow> chained a ss"
  by (cases ss) auto

lemma parse_loop_chained: "chained i (parse_loop p data i [])"
proof (induction "length data - i" arbitrary: i rule: less_induct)
  case less
  show ?case
  proof (cases "i < length data")
    case True
    obtain i2 run where nr: "next_run data i = (i2, run)" by (cases "next_run data i")
    have adv: "i < i2" using next_run_advances [OF True] nr by simp
    then have m: "length data - i2 < length data - i" using True by simp
    have sl: "run = take (i2 - i) (drop i data)" "i2 \<le> length data"
      using next_run_slice [OF nr] True by simp_all
    then have len: "length run = i2 - i" by simp
    have ih: "chained i2 (parse_loop p data i2 [])" by (rule less [OF m])
    have unf: "parse_loop p data i [] = record_segment p i run [] @ parse_loop p data i2 []"
      using parse_loop_unfold [OF True, of p] nr by simp
    from record_segment_cases [of p i run] show ?thesis
    proof
      assume "record_segment p i run [] = []"
      with unf ih adv show ?thesis by (simp add: chained_mono)
    next
      assume "\<exists>decoded. decode_ignore p (butlast run) = Some decoded
        \<and> list_ex is_japanese decoded \<and> 1 < length run
        \<and> record_segment p i run [] =
            [\<lparr>seg_offset = i, seg_length = length run,
              seg_original = run, seg_text = decoded\<rparr>]"
      then obtain decoded where "record_segment p i run [] =
            [\<lparr>seg_offset = i, seg_length = length run,
              seg_original = run, seg_text = decoded\<rparr>]" by blast
      with unf ih adv len show ?thesis by simp
    qed
  next
    case False
    then show ?thesis by (simp add: parse_loop_done)
  qed
qed

lemma parse_loop_consistent:
  "s \<in> set (parse_loop p data i []) \<Longrightarrow>
     consistent_segment p data s \<and> seg_offset s + seg_length s \<le> length data
     \<and> list_ex is_japanese (seg_text s) \<and> 1 < seg_length s"
proof (induction "length data - i" arbitrary: i rule: less_induct)
  case less
  show ?case
  proof (cases "i < length data")
    case True
    obtain i2 run where nr: "next_run data i = (i2, run)" by (cases "next_run data i")
    have adv: "i < i2" using next_run_advances [OF True] nr by simp
    then have m: "length data - i2 < length data - i" using True by simp
    have sl: "run = take (i2 - i) (drop i data)" "i2 \<le> length data"
      using next_run_slice [OF nr] True by simp_all
    then have len: "length run = i2 - i" by simp
    have unf: "parse_loop p data i [] = record_segment p i run [] @ parse_loop p data i2 []"
      using parse_loop_unfold [OF True, of p] nr by simp
    from less.prems unf consider
      "s \<in> set (record_segment p i run [])" | "s \<in> set (parse_loop p data i2 [])" by auto
    then show ?thesis
    proof cases
      case 1
      with record_segment_cases [of p i run] obtain decoded where
        d: "decode_ignore p (butlast run) = Some decoded" "list_ex is_japanese decoded"
           "1 < length run"
        and s: "s = \<lparr>seg_offset = i, seg_length = length run,
              seg_original = run, seg_text = decoded\<rparr>" by auto
      have "run = py_slice data i (i + length run)"
        using sl len by (simp add: py_slice_def)
      with d s sl(2) len adv show ?thesis by (simp add: consistent_segment_def)
    next
      case 2
      then show ?thesis by (rule less(1) [OF m])
    qed
  next
    case False
    with less.prems show ?thesis by (simp add: parse_loop_done)
  qed
qed

lemma parse_well_formed: "well_formed (parse p data)"
  using parse_loop_chained [of 0 p data] parse_loop_consistent [of _ p data 0]
  by (simp add: well_formed_def parse_def)

lemma chained_lower: "chained b ss \<Longrightarrow> s \<in> set ss \<Longrightarrow> b \<le> seg_offset s"
proof (induction ss arbitrary: b)
  case Nil
  then show ?case by simp
next
  case (Cons a ss)
  show ?case
  proof (cases "s = a")
    case True
    with Cons.prems show ?thesis by simp
  next
    case False
    with Cons.prems have "s \<in> set ss" and "chained (seg_offset a + seg_length a) ss"
      and "b \<le> seg_offset a" by simp_all
    with Cons.IH [of "seg_offset a + seg_length a"] show ?thesis by simp
  qed
qed

lemma chained_nth:
  "chained b ss \<Longrightarrow> i < j \<Longrightarrow> j < length ss \<Longrightarrow>
     seg_offset (ss ! i) + seg_length (ss ! i) \<le> seg_offset (ss ! j)"
proof (induction ss arbitrary: b i j)
  case Nil
  then show ?case by simp
next
  case (Cons a ss)
  from Cons.prems obtain j' where j: "j = Suc j'" by (cases j) simp_all
  from Cons.prems have ch: "chained (seg_offset a + seg_length a) ss" by simp
  show ?case
  proof (cases i)
    case 0
    from Cons.prems j have "ss ! j' \<in> set ss" by simp
    with chained_lower [OF ch] 0 j show ?thesis by simp
  next
    case (Suc i')
    with Cons.prems j Cons.IH [OF ch, of i' j'] show ?thesis by simp
  qed
qed

lemma chained_sorted: "chained b ss \<Longrightarrow> sorted (map seg_offset ss)"
proof (induction ss arbitrary: b)
  case Nil
  show ?case by simp
next
  case (Cons a ss)
  then have ch: "chained (seg_offset a + seg_length a) ss" by simp
  have "\<forall>s \<in> set ss. seg_offset a \<le> seg_offset s"
  proof
    fix s assume "s \<in> set ss"
    from chained_lower [OF ch this] show "seg_offset a \<le> seg_offset s" by simp
  qed
  with Cons.IH [OF ch] show ?case by simp
qed

lemma demo_unit_segments:
  "text_segments (parse demo_parser demo_unit) =
     [\<lparr>seg_offset = 0, seg_length = 3, seg_original = [0x82, 0xA0, 0], seg_text = [0x3042]\<rparr>,
      \<lparr>seg_offset = 5, seg_length = 4, seg_original = [0x82, 0xA0, 0x42, 0],
         seg_text = [0x3042, 0x42]\<rparr>]"
  by (simp add: parse_def demo_unit_def parse_loop.simps next_run_def scan_run.simps
      take_terminator_def record_segment_def demo_parser_def is_japanese_def)

subsection \<open>Rebuild without replacement texts\<close>

text \<open>
  Claim C2. For every unit file, \<open>rebuild\<close> applied to the result of \<open>parse\<close> with no
  replacement texts returns the bytes of the unit file, byte for byte, and prints nothing.
  \<open>parse\<close> is a total function (its loops terminate on every input), so the equation also
  says that both calls return.
\<close>

theorem rebuild_parse_identity:
  "rebuild p (parse p data) None = (data, [])"
  by (simp add: rebuild_def parse_def)

theorem rebuild_parse_identity_witness:
  "rebuild demo_parser (parse demo_parser [0x41, 0, 0x82, 0xA0, 0]) None
     = ([0x41, 0, 0x82, 0xA0, 0], [])"
  using rebuild_parse_identity [of demo_parser "[0x41, 0, 0x82, 0xA0, 0]"] by simp

text \<open>
  Claim C10. \<open>rebuild\<close> with an empty list of replacement texts returns the original
  snapshot and prints no count-mismatch warning, whatever the number of segments of the
  container: the empty list gives the same result as leaving the argument out.
\<close>

theorem rebuild_empty_list:
  "rebuild p parsed_data (Some []) = (original_data parsed_data, [])
   \<and> rebuild p parsed_data (Some []) = rebuild p parsed_data None"
  by (simp add: rebuild_def)

theorem rebuild_empty_list_witness:
  "0 < length (text_segments (parse demo_parser demo_unit))
   \<and> rebuild demo_parser (parse demo_parser demo_unit) (Some []) = (demo_unit, [])
   \<and> rebuild demo_parser (parse demo_parser demo_unit) (Some [])
       = rebuild demo_parser (parse demo_parser demo_unit) None"
proof -
  have "0 < length (text_segments (parse demo_parser demo_unit))"
    by (simp add: demo_unit_segments)
  moreover have o: "original_data (parse demo_parser demo_unit) = demo_unit"
    by (simp add: parse_def)
  note both = rebuild_empty_list [of demo_parser "parse demo_parser demo_unit"]
  from both have "rebuild demo_parser (parse demo_parser demo_unit) (Some []) = (demo_unit, [])"
    unfolding o by (rule conjunct1)
  moreover from both have "rebuild demo_parser (parse demo_parser demo_unit) (Some [])
       = rebuild demo_parser (parse demo_parser demo_unit) None"
    by (rule conjunct2)
  ultimately show ?thesis by blast
qed

subsection \<open>Order of the segments\<close>

text \<open>
  Claim C6. In every container returned by \<open>parse\<close> the segments are sorted ascending by
  offset and never overlap: for all \<open>i < j\<close>, segment \<open>i\<close> ends at or before the offset of
  segment \<open>j\<close>.
\<close>

theorem parse_segments_ordered:
  "sorted (map seg_offset (text_segments (parse p data)))
   \<and> (\<forall>i j. i < j \<and> j < length (text_segments (parse p data)) \<longrightarrow>
          seg_offset (text_segments (parse p data) ! i) + seg_length (text_segments (parse p data) ! i)
            \<le> seg_offset (text_segments (parse p data) ! j))"
proof -
  have ch: "chained 0 (text_segments (parse p data))"
    using parse_loop_chained [of 0 p data] by (simp add: parse_def)
  show ?thesis
    using chained_sorted [OF ch] chained_nth [OF ch] by blast
qed

theorem parse_segments_ordered_witness:
  "(0::nat) < 1 \<and> 1 < length (text_segments (parse demo_parser demo_unit))
   \<and> seg_offset (text_segments (parse demo_parser demo_unit) ! 0)
       + seg_length (text_segments (parse demo_parser demo_unit) ! 0)
       \<le> seg_offset (text_segments (parse demo_parser demo_unit) ! 1)"
proof -
  have h: "(0::nat) < 1 \<and> 1 < length (text_segments (parse demo_parser demo_unit))"
    by (simp add: demo_unit_segments)
  from parse_segments_ordered [of demo_parser demo_unit] h show ?thesis by blast
qed

subsection \<open>Rebuild with replacement texts\<close>

lemma insert_all_eq: "insert_all data k xs = take k data @ xs @ drop k data"
proof (induction xs arbitrary: data k)
  case Nil
  show ?case by simp
next
  case (Cons x xs)
  show ?case
  proof (cases "k \<le> length data")
    case True
    then show ?thesis by (simp add: Cons insert_at_def min_def)
  next
    case False
    then show ?thesis by (simp add: Cons insert_at_def)
  qed
qed

lemma replace_segment_fst:
  assumes "seg_offset s + seg_length s \<le> B" and "B \<le> length data"
  shows "fst (replace_segment p s t (take B data @ T, w)) =
     take (seg_offset s) data @ replacement p (take B data) s t
       @ drop (seg_offset s + seg_length s) (take B data) @ T"
proof (cases "encode_strict p t")
  case None
  have "take B data = take (seg_offset s) (take B data) @
      take (seg_length s) (drop (seg_offset s) (take B data))
      @ drop (seg_offset s + seg_length s) (take B data)"
    by (metis append_take_drop_id drop_drop add.commute)
  moreover have "take (seg_offset s) (take B data) = take (seg_offset s) data"
    using assms by (simp add: min_def)
  ultimately show ?thesis using None
    by (simp add: replace_segment_def replacement_def py_slice_def)
next
  case (Some encoded)
  have "take (seg_offset s) (take B data) = take (seg_offset s) data"
    using assms by (simp add: min_def)
  then show ?thesis using Some assms
    by (simp add: replace_segment_def replacement_def del_slice_def insert_all_eq Let_def min_def)
qed

lemma py_slice_take:
  "b \<le> n \<Longrightarrow> py_slice (take n data) a b = py_slice data a b"
  by (simp add: py_slice_def drop_take min_def)

lemma replacement_take:
  "seg_offset s + seg_length s \<le> n \<Longrightarrow> replacement p (take n data) s t = replacement p data s t"
  by (simp add: replacement_def py_slice_take split: option.splits)

lemma spliced_snoc:
  assumes "\<forall>x \<in> set ps. seg_offset (fst x) + seg_length (fst x) \<le> seg_offset s"
    and "pos \<le> seg_offset s"
  shows "spliced p data pos (ps @ [(s, t)]) =
     spliced p (take (seg_offset s) data) pos ps @ replacement p data s t
       @ drop (seg_offset s + seg_length s) data"
  using assms
proof (induction ps arbitrary: pos)
  case Nil
  then show ?case by (simp add: py_slice_def drop_take)
next
  case (Cons x ps)
  obtain s1 t1 where x: "x = (s1, t1)" by (cases x)
  from Cons.prems x have e1: "seg_offset s1 + seg_length s1 \<le> seg_offset s" by simp
  then have o1: "seg_offset s1 \<le> seg_offset s" by simp
  have ih: "spliced p data (seg_offset s1 + seg_length s1) (ps @ [(s, t)]) =
     spliced p (take (seg_offset s) data) (seg_offset s1 + seg_length s1) ps
       @ replacement p data s t @ drop (seg_offset s + seg_length s) data"
    using Cons.prems e1 by (intro Cons.IH) simp_all
  show ?case
    using ih o1 e1 by (simp add: x py_slice_take replacement_take)
qed

lemma chained_snoc:
  "chained b (xs @ [s]) \<Longrightarrow>
     chained b xs \<and> b \<le> seg_offset s \<and> (\<forall>x \<in> set xs. seg_offset x + seg_length x \<le> seg_offset s)"
proof (induction xs arbitrary: b)
  case Nil
  then show ?case by simp
next
  case (Cons a xs)
  then have "b \<le> seg_offset a" and c: "chained (seg_offset a + seg_length a) (xs @ [s])" by simp_all
  from Cons.IH [OF c] Cons.prems show ?case by auto
qed

lemma chained_take: "chained b xs \<Longrightarrow> chained b (take n xs)"
proof (induction xs arbitrary: b n)
  case Nil
  then show ?case by simp
next
  case (Cons a xs)
  then show ?case by (cases n) auto
qed

lemma rebuild_loop_spliced:
  assumes "n \<le> length segments" and "n \<le> length new_texts"
    and "chained 0 (take n segments)"
    and "\<forall>s \<in> set (take n segments). seg_offset s + seg_length s \<le> B"
    and "B \<le> length data"
  shows "fst (rebuild_loop p segments new_texts n (take B data @ T, w)) =
     spliced p (take B data) 0 (take n (zip segments new_texts)) @ T"
  using assms
proof (induction n arbitrary: B T w)
  case 0
  then show ?case by simp
next
  case (Suc i)
  define s where "s = segments ! i"
  define t where "t = new_texts ! i"
  define T' where "T' = replacement p (take B data) s t
       @ drop (seg_offset s + seg_length s) (take B data) @ T"
  have tk: "take (Suc i) segments = take i segments @ [s]"
    using Suc.prems(1) by (simp add: take_Suc_conv_app_nth s_def)
  have tz: "take (Suc i) (zip segments new_texts) = take i (zip segments new_texts) @ [(s, t)]"
    using Suc.prems(1,2) by (simp add: take_Suc_conv_app_nth s_def t_def)
  from Suc.prems(3) tk have ch: "chained 0 (take i segments)"
    and before: "\<forall>x \<in> set (take i segments). seg_offset x + seg_length x \<le> seg_offset s"
    using chained_snoc [of 0 "take i segments" s] by simp_all
  from Suc.prems(4) tk have e: "seg_offset s + seg_length s \<le> B" by simp
  then have o: "seg_offset s \<le> B" by simp
  obtain w' where rs: "replace_segment p s t (take B data @ T, w) =
      (take (seg_offset s) data @ T', w')"
    using replace_segment_fst [OF e Suc.prems(5), of p t T w]
    by (cases "replace_segment p s t (take B data @ T, w)") (simp add: T'_def)
  have "fst (rebuild_loop p segments new_texts (Suc i) (take B data @ T, w)) =
      fst (rebuild_loop p segments new_texts i (take (seg_offset s) data @ T', w'))"
    using rs by (simp add: s_def t_def)
  also have "\<dots> = spliced p (take (seg_offset s) data) 0 (take i (zip segments new_texts)) @ T'"
    using Suc.prems ch before o by (intro Suc.IH) simp_all
  also have "\<dots> = spliced p (take B data) 0 (take (Suc i) (zip segments new_texts)) @ T"
  proof -
    have pairs: "\<forall>x \<in> set (take i (zip segments new_texts)).
        seg_offset (fst x) + seg_length (fst x) \<le> seg_offset s"
    proof
      fix x assume "x \<in> set (take i (zip segments new_texts))"
      then have "x \<in> set (zip (take i segments) (take i new_texts))" by (simp add: take_zip)
      then have "fst x \<in> set (take i segments)"
        using set_zip_leftD [of "fst x" "snd x" "take i segments" "take i new_texts"] by simp
      with before show "seg_offset (fst x) + seg_length (fst x) \<le> seg_offset s" by simp
    qed
    have "spliced p (take B data) 0 (take i (zip segments new_texts) @ [(s, t)]) =
       spliced p (take (seg_offset s) (take B data)) 0 (take i (zip segments new_texts))
         @ replacement p (take B data) s t @ drop (seg_offset s + seg_length s) (take B data)"
      using pairs by (intro spliced_snoc) simp_all
    moreover have "take (seg_offset s) (take B data) = take (seg_offset s) data"
      using o by (simp add: min_def)
    ultimately show ?thesis by (simp add: tz T'_def)
  qed
  finally show ?case .
qed

lemma rebuild_loop_warnings:
  "snd (rebuild_loop p segments new_texts n (d, w)) =
     w @ map (\<lambda>i. EncodeError (seg_offset (segments ! i)))
           (filter (\<lambda>i. encode_strict p (new_texts ! i) = None) (rev [0..<n]))"
proof (induction n arbitrary: d w)
  case 0
  show ?case by simp
next
  case (Suc n)
  obtain d' w' where rs: "replace_segment p (segments ! n) (new_texts ! n) (d, w) = (d', w')"
    by (cases "replace_segment p (segments ! n) (new_texts ! n) (d, w)")
  have w': "w' = (if encode_strict p (new_texts ! n) = None
                 then w @ [EncodeError (seg_offset (segments ! n))] else w)"
    using rs by (auto simp add: replace_segment_def Let_def split: option.splits)
  show ?case by (simp add: rs Suc w')
qed

lemma rebuild_loop_prefix:
  assumes wf: "well_formed c" and n: "n \<le> length (text_segments c)" "n \<le> length new_texts"
    and B: "\<forall>s \<in> set (take n (text_segments c)). seg_offset s + seg_length s \<le> B"
       "B \<le> length (original_data c)"
  shows "fst (rebuild_loop p (text_segments c) new_texts n (original_data c, w)) =
     spliced p (take B (original_data c)) 0 (zip (take n (text_segments c)) (take n new_texts))
       @ drop B (original_data c)"
proof -
  have ch: "chained 0 (take n (text_segments c))"
    using wf by (simp add: well_formed_def chained_take)
  have "fst (rebuild_loop p (text_segments c) new_texts n
          (take B (original_data c) @ drop B (original_data c), w)) =
     spliced p (take B (original_data c)) 0 (take n (zip (text_segments c) new_texts))
       @ drop B (original_data c)"
    using n ch B by (rule rebuild_loop_spliced)
  then show ?thesis by (simp add: take_zip)
qed

lemma displaced_slice:
  assumes "out = pre @ drop e data" and "e \<le> a" and "e \<le> length data"
  shows "py_slice out (a + length out - length data) (a + l + length out - length data) =
     py_slice data a (a + l)"
proof -
  have len: "length out = length pre + (length data - e)" using assms(1) by simp
  have pos: "a + length out - length data = length pre + (a - e)"
    using len assms(2,3) by simp
  have pos2: "a + l + length out - length data = length pre + (a - e) + l"
    using len assms(2,3) by simp
  have "drop (length pre + (a - e)) out = drop (a - e) (drop e data)"
    using assms(1) by simp
  also have "\<dots> = drop a data" using assms(2) by simp
  finally show ?thesis by (simp add: py_slice_def pos pos2)
qed

text \<open>
  Claim C5, amended. When \<open>rebuild\<close> is given at least one replacement text but fewer texts
  than the well-formed container has segments, with \<open>N\<close> the number of texts:
  the output is the snapshot with the first \<open>N\<close> segments replaced and nothing else touched;
  every remaining segment's bytes stand unchanged in the output, displaced by the net change
  of length; and the call returns, having printed the count-mismatch warning first and then
  one encoding error per text that could not be encoded, in descending order of offset.
\<close>

theorem rebuild_fewer_texts:
  assumes "well_formed c" and "new_texts \<noteq> []"
    and "length new_texts < length (text_segments c)"
  shows "(let segs = text_segments c; data = original_data c; N = length new_texts;
              (out, warns) = rebuild p c (Some new_texts)
          in out = spliced p data 0 (zip (take N segs) new_texts)
             \<and> (\<forall>j. N \<le> j \<and> j < length segs \<longrightarrow>
                   py_slice out (seg_offset (segs ! j) + length out - length data)
                       (seg_offset (segs ! j) + seg_length (segs ! j) + length out - length data)
                     = py_slice data (seg_offset (segs ! j)) (seg_offset (segs ! j) + seg_length (segs ! j)))
             \<and> warns = CountMismatch (length segs) N
                 # map (\<lambda>i. EncodeError (seg_offset (segs ! i)))
                     (filter (\<lambda>i. encode_strict p (new_texts ! i) = None) (rev [0..<N])))"
proof -
  define segs where "segs = text_segments c"
  define data where "data = original_data c"
  define N where "N = length new_texts"
  define w0 where "w0 = [CountMismatch (length segs) N]"
  define e where "e = seg_offset (segs ! (N - 1)) + seg_length (segs ! (N - 1))"
  obtain out warns where r: "rebuild p c (Some new_texts) = (out, warns)"
    by (cases "rebuild p c (Some new_texts)")
  have N: "0 < N" "N < length segs" using assms(2,3) by (simp_all add: N_def segs_def)
  have loop: "rebuild p c (Some new_texts) = rebuild_loop p segs new_texts N (data, w0)"
    using assms(2,3) by (simp add: rebuild_def Let_def segs_def data_def N_def w0_def min_def)
  have ch: "chained 0 segs" and inb: "\<forall>s \<in> set segs. seg_offset s + seg_length s \<le> length data"
    using assms(1) by (simp_all add: well_formed_def segs_def data_def)
  have all_in: "\<forall>s \<in> set (take N segs). seg_offset s + seg_length s \<le> length data"
    using inb by (auto dest: in_set_takeD)
  have before_e: "\<forall>s \<in> set (take N segs). seg_offset s + seg_length s \<le> e"
  proof
    fix s assume "s \<in> set (take N segs)"
    then obtain i where i: "i < N" "s = segs ! i"
      using N by (auto simp add: in_set_conv_nth)
    show "seg_offset s + seg_length s \<le> e"
    proof (cases "i = N - 1")
      case True
      with i show ?thesis by (simp add: e_def)
    next
      case False
      with i have "i < N - 1" by simp
      moreover have "N - 1 < length segs" using N by simp
      ultimately have "seg_offset (segs ! i) + seg_length (segs ! i) \<le> seg_offset (segs ! (N - 1))"
        using chained_nth [OF ch] by blast
      with i show ?thesis by (simp add: e_def)
    qed
  qed
  have e_le: "e \<le> length data"
    using inb N by (simp add: e_def)
  have whole: "out = spliced p data 0 (zip (take N segs) new_texts)"
    using rebuild_loop_prefix [OF assms(1), of N new_texts "length data" p w0] N all_in r loop
    by (simp add: segs_def data_def N_def)
  have split: "out = spliced p (take e data) 0 (zip (take N segs) new_texts) @ drop e data"
    using rebuild_loop_prefix [OF assms(1), of N new_texts e p w0] N before_e e_le r loop
    by (simp add: segs_def data_def N_def)
  have rest: "py_slice out (seg_offset (segs ! j) + length out - length data)
                       (seg_offset (segs ! j) + seg_length (segs ! j) + length out - length data)
                = py_slice data (seg_offset (segs ! j)) (seg_offset (segs ! j) + seg_length (segs ! j))"
    if j: "N \<le> j" "j < length segs" for j
  proof -
    have "N - 1 < j" using N j by simp
    then have "e \<le> seg_offset (segs ! j)"
      using chained_nth [OF ch, of "N - 1" j] j by (simp add: e_def)
    with split e_le show ?thesis by (intro displaced_slice) simp_all
  qed
  have warns: "warns = CountMismatch (length segs) N
                 # map (\<lambda>i. EncodeError (seg_offset (segs ! i)))
                     (filter (\<lambda>i. encode_strict p (new_texts ! i) = None) (rev [0..<N]))"
    using rebuild_loop_warnings [of p segs new_texts N data w0] r loop by (simp add: w0_def)
  from whole rest warns show ?thesis
    unfolding Let_def r segs_def [symmetric] data_def [symmetric] N_def [symmetric]
    by simp
qed

lemma parse_original_data: "original_data (parse p data) = data"
  by (simp add: parse_def)

theorem rebuild_fewer_texts_witness:
  "well_formed (parse demo_parser demo_unit)
   \<and> [[0x48, 0x69]] \<noteq> ([] :: py_str list)
   \<and> length [[0x48, 0x69 :: nat]] < length (text_segments (parse demo_parser demo_unit))
   \<and> rebuild demo_parser (parse demo_parser demo_unit) (Some [[0x48, 0x69]])
       = ([0x48, 0x69, 0, 0x41, 0, 0x82, 0xA0, 0x42, 0], [CountMismatch 2 1])"
proof -
  have wf: "well_formed (parse demo_parser demo_unit)" by (rule parse_well_formed)
  have ne: "[[0x48, 0x69]] \<noteq> ([] :: py_str list)" by simp
  have lt: "length [[0x48, 0x69 :: nat]] < length (text_segments (parse demo_parser demo_unit))"
    by (simp add: demo_unit_segments)
  obtain out warns where
    r: "rebuild demo_parser (parse demo_parser demo_unit) (Some [[0x48, 0x69]]) = (out, warns)"
    by (cases "rebuild demo_parser (parse demo_parser demo_unit) (Some [[0x48, 0x69]])")
  from rebuild_fewer_texts [OF wf ne lt, of demo_parser] r
  have "out = spliced demo_parser (original_data (parse demo_parser demo_unit)) 0
          (zip (take 1 (text_segments (parse demo_parser demo_unit))) [[0x48, 0x69]])"
    and "warns = CountMismatch (length (text_segments (parse demo_parser demo_unit))) 1
          # map (\<lambda>i. EncodeError (seg_offset (text_segments (parse demo_parser demo_unit) ! i)))
              (filter (\<lambda>i. encode_strict demo_parser ([[0x48, 0x69]] ! i) = None) (rev [0..<1]))"
    by (simp_all add: Let_def)
  then have "out = [0x48, 0x69, 0, 0x41, 0, 0x82, 0xA0, 0x42, 0]" and "warns = [CountMismatch 2 1]"
    unfolding demo_unit_segments parse_original_data
    by (simp_all add: demo_unit_def replacement_def py_slice_def demo_parser_def)
  with wf ne lt r show ?thesis by simp
qed

text \<open>
  Claim C5 as stated fails when no text at all is supplied: the empty list is fewer texts
  than the two segments of the container, and \<open>rebuild\<close> prints nothing.
\<close>

theorem rebuild_no_texts_no_warning:
  "length ([] :: py_str list) < length (text_segments (parse demo_parser demo_unit))
   \<and> snd (rebuild demo_parser (parse demo_parser demo_unit) (Some [])) = []"
  by (simp add: demo_unit_segments rebuild_def)

subsection \<open>The run at the end of a unit file\<close>

text \<open>
  Claim C4 (evaluation of the code at the failing input). The unit file \<open>82 A0 41\<close> ends
  without a null byte. \<open>parse\<close> still records the run as a text segment of length 3: the
  run is not terminated by a null byte, and what is decoded is the run without its last
  data byte \<open>41\<close>.
\<close>

theorem parse_records_unterminated_run:
  "text_segments (parse demo_parser [0x82, 0xA0, 0x41]) =
     [\<lparr>seg_offset = 0, seg_length = 3, seg_original = [0x82, 0xA0, 0x41], seg_text = [0x3042]\<rparr>]"
  by (simp add: parse_def parse_loop.simps next_run_def scan_run.simps take_terminator_def
      record_segment_def demo_parser_def is_japanese_def)

text \<open>
  Claim C9 (evaluation of the code at the failing input). The unit file \<open>82 A0 82 A0\<close> ends
  without a null byte. The recorded raw bytes are the four bytes of the run and hold no
  terminator, but the recorded text is the decoding of the first three bytes only, one
  character, where the raw bytes decode to two.
\<close>

theorem parse_text_drops_last_data_byte:
  "text_segments (parse demo_parser [0x82, 0xA0, 0x82, 0xA0]) =
     [\<lparr>seg_offset = 0, seg_length = 4, seg_original = [0x82, 0xA0, 0x82, 0xA0],
       seg_text = [0x3042]\<rparr>]
   \<and> decode_ignore demo_parser [0x82, 0xA0, 0x82, 0xA0] = Some [0x3042, 0x3042]"
  by (simp add: parse_def parse_loop.simps next_run_def scan_run.simps take_terminator_def
      record_segment_def demo_parser_def is_japanese_def)

section \<open>Properties of the index table\<close>

text \<open>
  Claim C8. On every input shorter than 16 bytes \<open>read\<close> fails with \<open>struct.error\<close> (the
  FormatError of the spec): the call returns no header and no entries.
\<close>

theorem read_short_input_fails:
  "length data < 16 \<Longrightarrow> read data = Inl StructError"
  by (simp add: read_def py_slice_def)

theorem read_short_input_fails_witness:
  "length [0x10, 0x00, 0x00, 0x08 :: byte] < 16
   \<and> read [0x10, 0x00, 0x00, 0x08] = Inl StructError"
  using read_short_input_fails [of "[0x10, 0x00, 0x00, 0x08]"] by simp

section \<open>Properties of the block archive\<close>

subsection \<open>The small file system\<close>

lemma demo_resolver_values:
  "demo_resolver ''out'' = IsDir"
  "demo_resolver ''out/SCN002.SCF'' = IsFile ''out/SCN002.SCF''"
  "demo_resolver ''out/SCN003.SCF'' = IsFile ''out/SCN003.SCF''"
  "demo_resolver ''out/A.SCF'' = IsFile ''out/A.SCF''"
  "demo_resolver ''out/./A.SCF'' = IsFile ''out/A.SCF''"
  "demo_resolver ''out/A/B.SCF'' = NoEntry"
  "demo_resolver ''out/C.SCF'' = IsFile ''out/C.SCF''"
  "demo_resolver ''new.DSK'' = IsFile ''new.DSK''"
  "demo_resolver ''new.PFT'' = IsFile ''new.PFT''"
  "demo_resolver ''scene.DSK'' = IsFile ''scene.DSK''"
  "demo_resolver ''scene.PFT'' = IsFile ''scene.PFT''"
  by (simp_all add: demo_resolver_def)

lemma demo_unit_paths:
  "unit_path ''out'' ''SCN002'' = ''out/SCN002.SCF''"
  "unit_path ''out'' ''SCN003'' = ''out/SCN003.SCF''"
  "unit_path ''out'' ''A'' = ''out/A.SCF''"
  "unit_path ''out'' ''./A'' = ''out/./A.SCF''"
  "unit_path ''out'' ''A/B'' = ''out/A/B.SCF''"
  "unit_path ''out'' ''C'' = ''out/C.SCF''"
  by (simp_all add: unit_path_def path_join_def)

subsection \<open>\<open>unpack\<close>, entry by entry\<close>

lemma unpack_loop_append:
  "unpack_loop rs archive output_dir (es @ es') st =
     (case unpack_loop rs archive output_dir es st of
        Inl x \<Rightarrow> Inl x
      | Inr st' \<Rightarrow> unpack_loop rs archive output_dir es' st')"
  by (induction es arbitrary: st) (simp_all split: sum.splits)

lemma unpack_is_loop:
  "unpack rs files archive entries output_dir = Inr st \<Longrightarrow>
     rs output_dir = IsDir \<and>
     unpack_loop rs archive output_dir entries
       \<lparr>unpack_files = files, extracted = 0, unpack_log = []\<rparr> = Inr st"
  by (simp add: unpack_def Let_def split: path_status.splits)

text \<open>
  Claim C7, amended. Take the \<open>k\<close>-th entry \<open>(name, idx, sz)\<close> of the index and suppose
  \<open>unpack\<close> got through the first \<open>k\<close> entries, leaving the state \<open>before\<close>. When
  \<open>idx * 2048 + sz\<close> exceeds the archive length, the entry only adds a range error to the
  report: no file is written and the count of extracted files stays. When the entry is in
  range and its path can be opened as a file, that file is written with exactly the \<open>sz\<close>
  bytes from offset \<open>idx * 2048\<close>. In both cases the batch goes on with the remaining
  entries. When the entry is in range and its path cannot be opened, \<open>unpack\<close> raises there:
  nothing is written for the entry and the remaining entries are not processed.
\<close>

theorem unpack_per_entry:
  assumes "k < length entries" and "entries ! k = (name, idx, sz)"
    and "unpack rs files archive (take k entries) output_dir = Inr before"
  shows "(let after = unpack rs files archive (take (Suc k) entries) output_dir;
              offset = idx * 2048;
              output_path = unit_path output_dir name
          in (if offset + sz \<le> length archive
              then (case rs output_path of
                      IsFile f \<Rightarrow>
                        after = Inr (before
                          \<lparr>unpack_files := (unpack_files before)(f \<mapsto> take sz (drop offset archive)),
                           extracted := extracted before + 1,
                           unpack_log := unpack_log before @ [Extracted name idx offset sz]\<rparr>)
                        \<and> length (take sz (drop offset archive)) = sz
                    | _ \<Rightarrow> after = Inl (PathError output_path, before))
              else after = Inr (before
                     \<lparr>unpack_log := unpack_log before
                        @ [OutOfRange name idx offset sz (length archive)]\<rparr>))
             \<and> unpack rs files archive entries output_dir
                 = (case after of
                      Inl raised \<Rightarrow> Inl raised
                    | Inr st \<Rightarrow> unpack_loop rs archive output_dir (drop (Suc k) entries) st))"
proof -
  define st0 :: "'a unpack_state" where
    "st0 = \<lparr>unpack_files = files, extracted = 0, unpack_log = []\<rparr>"
  from unpack_is_loop [OF assms(3)]
  have dir: "rs output_dir = IsDir"
    and before: "unpack_loop rs archive output_dir (take k entries) st0 = Inr before"
    by (simp_all add: st0_def)
  have un: "unpack rs files archive es output_dir = unpack_loop rs archive output_dir es st0" for es
    by (simp add: unpack_def dir st0_def)
  have tk: "take (Suc k) entries = take k entries @ [(name, idx, sz)]"
    using assms(1,2) by (simp add: take_Suc_conv_app_nth)
  have after: "unpack_loop rs archive output_dir (take (Suc k) entries) st0
      = (case unpack_entry rs archive output_dir (name, idx, sz) before of
           Inl err \<Rightarrow> Inl (err, before) | Inr st' \<Rightarrow> Inr st')"
    by (simp add: tk unpack_loop_append before split: sum.splits)
  have "entries = take (Suc k) entries @ drop (Suc k) entries" by simp
  then have rest: "unpack_loop rs archive output_dir entries st0
      = (case unpack_loop rs archive output_dir (take (Suc k) entries) st0 of
           Inl x \<Rightarrow> Inl x
         | Inr st' \<Rightarrow> unpack_loop rs archive output_dir (drop (Suc k) entries) st')"
    by (metis unpack_loop_append)
  show ?thesis
    unfolding un Let_def
    by (simp add: rest after write_file_def py_slice_def BLOCK_SIZE_def Let_def
        split: path_status.splits)
qed

theorem unpack_per_entry_witness:
  "(0::nat) < length demo_entries \<and> demo_entries ! 0 = (''SCN002'', 0, 2)
   \<and> unpack demo_resolver Map.empty [1, 2, 3] (take 0 demo_entries) ''out''
       = Inr \<lparr>unpack_files = Map.empty, extracted = 0, unpack_log = []\<rparr>
   \<and> unpack demo_resolver Map.empty [1, 2, 3] (take (Suc 0) demo_entries) ''out''
       = Inr \<lparr>unpack_files = [''out/SCN002.SCF'' \<mapsto> [1, 2]], extracted = 1,
              unpack_log = [Extracted ''SCN002'' 0 0 2]\<rparr>
   \<and> (1::nat) < length demo_entries \<and> demo_entries ! 1 = (''SCN003'', 5, 50)
   \<and> unpack demo_resolver Map.empty [1, 2, 3] (take (Suc 1) demo_entries) ''out''
       = Inr \<lparr>unpack_files = [''out/SCN002.SCF'' \<mapsto> [1, 2]], extracted = 1,
              unpack_log = [Extracted ''SCN002'' 0 0 2, OutOfRange ''SCN003'' 5 10240 50 3]\<rparr>"
proof -
  have k0: "(0::nat) < length demo_entries" "demo_entries ! 0 = (''SCN002'', 0, 2)"
    by (simp_all add: demo_entries_def)
  have k1: "(1::nat) < length demo_entries" "demo_entries ! 1 = (''SCN003'', 5, 50)"
    by (simp_all add: demo_entries_def)
  have b0: "unpack demo_resolver Map.empty [1, 2, 3] (take 0 demo_entries) ''out''
       = Inr \<lparr>unpack_files = Map.empty, extracted = 0, unpack_log = []\<rparr>"
    by (simp add: unpack_def demo_resolver_values)
  from unpack_per_entry [OF k0 b0]
  have a0: "unpack demo_resolver Map.empty [1, 2, 3] (take (Suc 0) demo_entries) ''out''
       = Inr \<lparr>unpack_files = [''out/SCN002.SCF'' \<mapsto> [1, 2]], extracted = 1,
              unpack_log = [Extracted ''SCN002'' 0 0 2]\<rparr>"
    by (simp add: Let_def demo_unit_paths demo_resolver_values)
  then have b1: "unpack demo_resolver Map.empty [1, 2, 3] (take 1 demo_entries) ''out''
       = Inr \<lparr>unpack_files = [''out/SCN002.SCF'' \<mapsto> [1, 2]], extracted = 1,
              unpack_log = [Extracted ''SCN002'' 0 0 2]\<rparr>"
    by simp
  from unpack_per_entry [OF k1 b1]
  have a1: "unpack demo_resolver Map.empty [1, 2, 3] (take (Suc 1) demo_entries) ''out''
       = Inr \<lparr>unpack_files = [''out/SCN002.SCF'' \<mapsto> [1, 2]], extracted = 1,
              unpack_log = [Extracted ''SCN002'' 0 0 2, OutOfRange ''SCN003'' 5 10240 50 3]\<rparr>"
    by (simp add: Let_def)
  from k0 k1 b0 a0 a1 show ?thesis by blast
qed

text \<open>
  Claim C7 as stated fails for an entry in range whose file cannot be opened: the name
  \<open>A/B\<close> leads into a directory that does not exist, \<open>open\<close> raises, and the entry \<open>C\<close>
  behind it, in range as well, is never written.
\<close>

theorem unpack_aborts_on_unopenable_unit:
  "0 * BLOCK_SIZE + 1 \<le> length [7 :: byte]
   \<and> unpack demo_resolver Map.empty [7] [(''A/B'', 0, 1), (''C'', 0, 1)] ''out''
       = Inl (PathError ''out/A/B.SCF'',
              \<lparr>unpack_files = Map.empty, extracted = 0, unpack_log = []\<rparr>)"
  by (simp add: unpack_def demo_resolver_values demo_unit_paths write_file_def BLOCK_SIZE_def
      py_slice_def)

subsection \<open>\<open>unpack\<close> followed by \<open>repack\<close>\<close>

lemma py_max_Max: "xs \<noteq> [] \<Longrightarrow> py_max xs = Some (Max (set xs))"
proof (cases xs)
  case Nil
  assume "xs \<noteq> []"
  with Nil show ?thesis by simp
next
  case (Cons x rest)
  have "fold max rest x = Max (set (x # rest))" by (rule Max.set_eq_fold [symmetric])
  with Cons show ?thesis by simp
qed

lemma write_slice_length:
  "a \<le> length buf \<Longrightarrow>
     length (write_slice buf a (a + length xs) xs) = max (length buf) (a + length xs)"
  by (simp add: write_slice_def min_def max_def)

lemma write_slice_nth:
  assumes "a \<le> length buf" and "pos < max (length buf) (a + length xs)"
  shows "write_slice buf a (a + length xs) xs ! pos =
     (if a \<le> pos \<and> pos < a + length xs then xs ! (pos - a) else buf ! pos)"
proof -
  have len: "length (take a buf) = a" using assms(1) by simp
  consider "pos < a" | "a \<le> pos" "pos < a + length xs" | "a + length xs \<le> pos" by linarith
  then show ?thesis
  proof cases
    case 1
    then show ?thesis using assms(1) by (simp add: write_slice_def nth_append)
  next
    case 2
    then have "pos - a < length xs" by linarith
    with 2 show ?thesis using len by (simp add: write_slice_def nth_append)
  next
    case 3
    with assms(2) have pb: "pos < length buf" by simp
    have n1: "\<not> pos < a" and n2: "\<not> pos - a < length xs" using 3 by linarith+
    have le: "a + length xs \<le> length buf" using 3 pb by linarith
    have idx: "a + length xs + (pos - a - length xs) = pos" using 3 by linarith
    have "drop (a + length xs) buf ! (pos - a - length xs) = buf ! (a + length xs + (pos - a - length xs))"
      using le by (intro nth_drop) simp
    with idx have "drop (a + length xs) buf ! (pos - a - length xs) = buf ! pos" by simp
    with n1 n2 3 len show ?thesis
      by (simp add: write_slice_def nth_append)
  qed
qed

lemma unpack_loop_files_other:
  assumes "unpack_loop rs archive output_dir es st = Inr U"
    and "IsFile f \<notin> set (unit_files rs output_dir es)"
  shows "unpack_files U f = unpack_files st f"
  using assms
proof (induction es arbitrary: st)
  case Nil
  then show ?case by simp
next
  case (Cons e es)
  obtain name idx sz where e: "e = (name, idx, sz)" by (cases e)
  from Cons.prems(1) obtain st' where
    step: "unpack_entry rs archive output_dir e st = Inr st'"
    and rest: "unpack_loop rs archive output_dir es st' = Inr U"
    by (auto split: sum.splits)
  from Cons.prems(2) have nf: "rs (unit_path output_dir name) \<noteq> IsFile f"
    and others: "IsFile f \<notin> set (unit_files rs output_dir es)"
    by (auto simp add: unit_files_def e)
  from step nf have "unpack_files st' f = unpack_files st f"
    by (auto simp add: e Let_def write_file_def split: if_splits path_status.splits)
  with Cons.IH [OF rest others] show ?case by simp
qed

lemma unpack_loop_returns:
  assumes "list_all is_file (unit_files rs output_dir es)"
  shows "\<exists>U. unpack_loop rs archive output_dir es st = Inr U"
  using assms
proof (induction es arbitrary: st)
  case Nil
  show ?case by simp
next
  case (Cons e es)
  obtain name idx sz where e: "e = (name, idx, sz)" by (cases e)
  from Cons.prems obtain f where f: "rs (unit_path output_dir name) = IsFile f"
    by (auto simp add: unit_files_def e is_file_def split: path_status.splits)
  from Cons.prems have rest: "list_all is_file (unit_files rs output_dir es)"
    by (simp add: unit_files_def)
  have "\<exists>st'. unpack_entry rs archive output_dir e st = Inr st'"
    by (cases "idx * BLOCK_SIZE + sz \<le> length archive") (simp_all add: e Let_def write_file_def f)
  then obtain st' where "unpack_entry rs archive output_dir e st = Inr st'" by blast
  with Cons.IH [OF rest, of st'] show ?case by simp
qed

lemma unpack_loop_files:
  assumes "unpack_loop rs archive output_dir es st = Inr U"
    and "distinct (unit_files rs output_dir es)"
    and "all_in_range archive es"
    and "(name, idx, sz) \<in> set es"
    and "rs (unit_path output_dir name) = IsFile f"
  shows "unpack_files U f = Some (py_slice archive (idx * BLOCK_SIZE) (idx * BLOCK_SIZE + sz))"
  using assms
proof (induction es arbitrary: st)
  case Nil
  then show ?case by simp
next
  case (Cons e es)
  obtain n i s where e: "e = (n, i, s)" by (cases e)
  from Cons.prems(1) obtain st' where
    step: "unpack_entry rs archive output_dir e st = Inr st'"
    and rest: "unpack_loop rs archive output_dir es st' = Inr U"
    by (auto split: sum.splits)
  from Cons.prems(2) have d: "distinct (unit_files rs output_dir es)"
    and nin: "rs (unit_path output_dir n) \<notin> set (unit_files rs output_dir es)"
    by (simp_all add: unit_files_def e)
  from Cons.prems(3) have r: "all_in_range archive es" and re: "i * BLOCK_SIZE + s \<le> length archive"
    by (simp_all add: all_in_range_def e)
  show ?case
  proof (cases "(name, idx, sz) \<in> set es")
    case True
    from Cons.IH [OF rest d r True Cons.prems(5)] show ?thesis .
  next
    case False
    with Cons.prems(4) have eq: "n = name" "i = idx" "s = sz" by (simp_all add: e)
    from nin eq Cons.prems(5) have "IsFile f \<notin> set (unit_files rs output_dir es)" by simp
    with rest have "unpack_files U f = unpack_files st' f"
      by (rule unpack_loop_files_other)
    moreover from step re eq Cons.prems(5)
    have "unpack_files st' f = Some (py_slice archive (idx * BLOCK_SIZE) (idx * BLOCK_SIZE + sz))"
      by (auto simp add: e Let_def write_file_def)
    ultimately show ?thesis by simp
  qed
qed

lemma repack_loop_agrees:
  assumes "\<forall>(name, idx, sz) \<in> set es. \<exists>f. rs (unit_path input_dir name) = IsFile f
             \<and> files f = Some (py_slice archive (idx * BLOCK_SIZE) (idx * BLOCK_SIZE + sz))"
    and "all_in_range archive es"
    and "length (archive_data st) = length archive"
  shows "\<exists>st'. repack_loop rs files input_dir es st = Inr st'
     \<and> length (archive_data st') = length archive
     \<and> (\<forall>pos < length archive.
           archive_data st' ! pos =
             (if covered es pos then archive ! pos else archive_data st ! pos))"
  using assms
proof (induction es arbitrary: st)
  case Nil
  then show ?case by (simp add: covered_def)
next
  case (Cons e es)
  obtain name idx sz where e: "e = (name, idx, sz)" by (cases e)
  define a where "a = idx * BLOCK_SIZE"
  define d where "d = py_slice archive a (a + sz)"
  from Cons.prems(2) have inr: "a + sz \<le> length archive" and r: "all_in_range archive es"
    by (simp_all add: all_in_range_def e a_def)
  have dlen: "length d = sz" using inr by (simp add: d_def py_slice_def)
  have dnth: "d ! k = archive ! (a + k)" if "k < sz" for k
    using that inr by (simp add: d_def py_slice_def)
  from Cons.prems(1) obtain f where
    f: "rs (unit_path input_dir name) = IsFile f" and present: "files f = Some d"
    by (auto simp add: e d_def a_def)
  define st' where "st' = st\<lparr>archive_data := write_slice (archive_data st) a (a + length d) d,
        new_entries := new_entries st @ [(name, idx, length d)],
        repack_log := repack_log st @ [Packed name idx a (length d)]\<rparr>"
  have step: "repack_entry rs files input_dir e st = Inr st'"
    by (simp add: e Let_def path_exists_def read_file_def f present st'_def a_def)
  have buf': "archive_data st' = write_slice (archive_data st) a (a + length d) d"
    by (simp add: st'_def)
  have a_le: "a \<le> length (archive_data st)" using inr Cons.prems(3) by simp
  have len': "length (archive_data st') = length archive"
    using write_slice_length [OF a_le, of d] inr Cons.prems(3) by (simp add: buf' dlen max_def)
  have nth': "archive_data st' ! pos =
      (if a \<le> pos \<and> pos < a + sz then archive ! pos else archive_data st ! pos)"
    if "pos < length archive" for pos
  proof -
    have pm: "pos < max (length (archive_data st)) (a + length d)"
      using that Cons.prems(3) by simp
    note w = write_slice_nth [OF a_le pm]
    show ?thesis
    proof (cases "a \<le> pos \<and> pos < a + sz")
      case True
      then have "pos - a < sz" and "a + (pos - a) = pos" by linarith+
      with dnth [of "pos - a"] have "d ! (pos - a) = archive ! pos" by simp
      with True w show ?thesis by (simp add: buf' dlen)
    next
      case False
      with w have "archive_data st' ! pos = archive_data st ! pos"
        by (simp add: buf' dlen)
      with False show ?thesis by auto
    qed
  qed
  from Cons.prems(1) have files: "\<forall>(name, idx, sz) \<in> set es. \<exists>f. rs (unit_path input_dir name) = IsFile f
             \<and> files f = Some (py_slice archive (idx * BLOCK_SIZE) (idx * BLOCK_SIZE + sz))"
    by simp
  from Cons.IH [OF files r len'] obtain st'' where
    ih: "repack_loop rs files input_dir es st' = Inr st''"
      "length (archive_data st'') = length archive"
      "\<forall>pos < length archive. archive_data st'' ! pos =
             (if covered es pos then archive ! pos else archive_data st' ! pos)"
    by blast
  have cov: "covered (e # es) pos \<longleftrightarrow> (a \<le> pos \<and> pos < a + sz) \<or> covered es pos" for pos
    by (auto simp add: covered_def e a_def)
  have "\<forall>pos < length archive. archive_data st'' ! pos =
             (if covered (e # es) pos then archive ! pos else archive_data st ! pos)"
    using ih(3) nth' by (simp add: cov)
  with ih(1,2) step show ?case by simp
qed

lemma repack_build_from_zero:
  "entries \<noteq> [] \<Longrightarrow>
     repack_build rs files input_dir entries =
       repack_loop rs files input_dir entries
         \<lparr>archive_data = replicate ((max_block_of entries + 1) * BLOCK_SIZE) 0,
          new_entries = [], repack_log = []\<rparr>"
  by (simp add: repack_build_def py_max_Max max_block_of_def Let_def)

lemma write_pft_other:
  assumes "rs output_path \<noteq> IsFile f"
  shows "(case write_pft rs files header output_path entries of
            Inl (e, files') \<Rightarrow> files' f | Inr files' \<Rightarrow> files' f) = files f"
  using assms
  by (auto simp add: write_pft_def split: path_status.splits sum.splits prod.splits)

lemma repack_final_archive:
  assumes "repack_build rs files input_dir entries = Inr st"
    and "rs (path_or output_archive (archive_path self)) = IsFile out"
    and "rs (path_or output_index (index_path self)) \<noteq> IsFile out"
  shows "final_files (repack rs files self header entries input_dir output_archive output_index) out
     = Some (archive_data st)"
proof -
  define files1 where "files1 = files(out \<mapsto> archive_data st)"
  have w: "write_file rs files (path_or output_archive (archive_path self)) (archive_data st)
      = Inr files1"
    by (simp add: write_file_def assms(2) files1_def)
  from write_pft_other [of rs "path_or output_index (index_path self)" out files1 "Some header"
      "new_entries st"] assms(3)
  have "(case write_pft rs files1 (Some header) (path_or output_index (index_path self))
               (new_entries st) of
            Inl (e, files') \<Rightarrow> files' out | Inr files' \<Rightarrow> files' out) = Some (archive_data st)"
    by (simp add: files1_def)
  then show ?thesis
    by (simp add: repack_def Let_def assms(1) w final_files_def split: sum.splits prod.splits)
qed

lemma repack_final_other:
  assumes "repack_build rs files input_dir entries = Inr st"
    and "rs (path_or output_archive (archive_path self)) = IsFile out"
    and "rs (path_or output_index (index_path self)) \<noteq> IsFile g"
    and "g \<noteq> out"
  shows "final_files (repack rs files self header entries input_dir output_archive output_index) g
     = files g"
proof -
  define files1 where "files1 = files(out \<mapsto> archive_data st)"
  have w: "write_file rs files (path_or output_archive (archive_path self)) (archive_data st)
      = Inr files1"
    by (simp add: write_file_def assms(2) files1_def)
  from write_pft_other [of rs "path_or output_index (index_path self)" g files1 "Some header"
      "new_entries st"] assms(3,4)
  have "(case write_pft rs files1 (Some header) (path_or output_index (index_path self))
               (new_entries st) of
            Inl (e, files') \<Rightarrow> files' g | Inr files' \<Rightarrow> files' g) = files g"
    by (simp add: files1_def)
  then show ?thesis
    by (simp add: repack_def Let_def assms(1) w final_files_def split: sum.splits prod.splits)
qed

text \<open>
  Claim C1, amended. Take a non-empty entry list whose unit files are separate in an
  existing output directory, and a block archive whose length is
  \<open>(max(blockIndex) + 1) * 2048\<close>, in which the span of every entry ends inside the archive
  and every byte outside all spans is zero. Then \<open>unpack\<close> returns, and \<open>repack\<close> on the
  unit files it wrote builds the original archive, byte for byte. Those are the bytes that
  the output archive holds after \<open>repack\<close>, whenever that path can be opened and the new
  index is not written to the same file.
\<close>

theorem repack_unpack_roundtrip:
  assumes "entries \<noteq> []" and "rs output_dir = IsDir"
    and "separate_files rs output_dir entries"
    and "all_in_range archive entries"
    and "length archive = (max_block_of entries + 1) * BLOCK_SIZE"
    and "gaps_zero archive entries"
  shows "\<exists>U. unpack rs files archive entries output_dir = Inr U
     \<and> repacked rs (unpack_files U) output_dir entries = Inr archive
     \<and> (\<forall>out. rs (path_or output_archive (archive_path self)) = IsFile out
             \<and> rs (path_or output_index (index_path self)) \<noteq> IsFile out
           \<longrightarrow> final_files (repack rs (unpack_files U) self header entries output_dir
                   output_archive output_index) out = Some archive)"
proof -
  define st0 :: "'a unpack_state" where
    "st0 = \<lparr>unpack_files = files, extracted = 0, unpack_log = []\<rparr>"
  from assms(3) have openable: "list_all is_file (unit_files rs output_dir entries)"
    and sep: "distinct (unit_files rs output_dir entries)"
    by (simp_all add: separate_files_def)
  from unpack_loop_returns [OF openable, of archive st0] obtain U where
    loop: "unpack_loop rs archive output_dir entries st0 = Inr U" by blast
  have un: "unpack rs files archive entries output_dir = Inr U"
    by (simp add: unpack_def assms(2) loop [unfolded st0_def])
  have units: "\<forall>(name, idx, sz) \<in> set entries. \<exists>f. rs (unit_path output_dir name) = IsFile f
      \<and> unpack_files U f = Some (py_slice archive (idx * BLOCK_SIZE) (idx * BLOCK_SIZE + sz))"
  proof (clarify)
    fix name idx sz assume mem: "(name, idx, sz) \<in> set entries"
    then have "rs (unit_path output_dir name) \<in> set (unit_files rs output_dir entries)"
      by (force simp add: unit_files_def)
    with openable have "is_file (rs (unit_path output_dir name))"
      by (simp add: list_all_iff)
    then obtain f where f: "rs (unit_path output_dir name) = IsFile f"
      by (cases "rs (unit_path output_dir name)") (simp_all add: is_file_def)
    from unpack_loop_files [OF loop sep assms(4) mem f] f
    show "\<exists>f. rs (unit_path output_dir name) = IsFile f
      \<and> unpack_files U f = Some (py_slice archive (idx * BLOCK_SIZE) (idx * BLOCK_SIZE + sz))"
      by blast
  qed
  define b0 where "b0 = \<lparr>archive_data = replicate ((max_block_of entries + 1) * BLOCK_SIZE) (0::byte),
          new_entries = [], repack_log = []\<rparr>"
  have len0: "length (archive_data b0) = length archive"
    using assms(5) by (simp add: b0_def)
  from repack_loop_agrees [OF units assms(4) len0] obtain st where
    st: "repack_loop rs (unpack_files U) output_dir entries b0 = Inr st"
    and len: "length (archive_data st) = length archive"
    and nth: "\<forall>pos < length archive. archive_data st ! pos =
             (if covered entries pos then archive ! pos else archive_data b0 ! pos)"
    by blast
  have same: "archive_data st = archive"
  proof (rule nth_equalityI)
    show "length (archive_data st) = length archive" by (rule len)
  next
    fix pos assume "pos < length (archive_data st)"
    then have p: "pos < length archive" using len by simp
    show "archive_data st ! pos = archive ! pos"
    proof (cases "covered entries pos")
      case True
      with nth p show ?thesis by simp
    next
      case False
      with assms(6) p have "archive ! pos = 0" by (simp add: gaps_zero_def)
      moreover have "archive_data b0 ! pos = 0" using p assms(5) by (simp add: b0_def)
      ultimately show ?thesis using nth p False by simp
    qed
  qed
  have build: "repack_build rs (unpack_files U) output_dir entries = Inr st"
    using repack_build_from_zero [OF assms(1), of rs "unpack_files U" output_dir] st
    by (simp add: b0_def)
  then have rp: "repacked rs (unpack_files U) output_dir entries = Inr archive"
    by (simp add: repacked_def same)
  have "final_files (repack rs (unpack_files U) self header entries output_dir
                   output_archive output_index) out = Some archive"
    if "rs (path_or output_archive (archive_path self)) = IsFile out"
      and "rs (path_or output_index (index_path self)) \<noteq> IsFile out" for out
    using repack_final_archive [OF build that] same by simp
  with un rp show ?thesis by blast
qed

lemma demo_max_block: "max_block_of demo_entries = 5"
  by (simp add: max_block_of_def demo_entries_def)

lemma demo_archive_gaps: "gaps_zero demo_archive demo_entries"
proof -
  have "demo_archive ! pos = 0" if "pos < 12288" "\<not> pos < 2" "\<not> (10240 \<le> pos \<and> pos < 10290)" for pos
    using that by (auto simp add: demo_archive_def nth_append nth_Cons')
  then show ?thesis
    by (auto simp add: gaps_zero_def covered_def demo_entries_def demo_archive_def BLOCK_SIZE_def)
qed

lemma demo_separate: "separate_files demo_resolver ''out'' demo_entries"
  by (simp add: separate_files_def unit_files_def demo_entries_def demo_unit_paths
      demo_resolver_values is_file_def)

theorem repack_unpack_roundtrip_witness:
  "demo_entries \<noteq> [] \<and> demo_resolver ''out'' = IsDir
   \<and> separate_files demo_resolver ''out'' demo_entries
   \<and> all_in_range demo_archive demo_entries
   \<and> length demo_archive = (max_block_of demo_entries + 1) * BLOCK_SIZE
   \<and> gaps_zero demo_archive demo_entries
   \<and> (\<exists>U. unpack demo_resolver Map.empty demo_archive demo_entries ''out'' = Inr U
        \<and> repacked demo_resolver (unpack_files U) ''out'' demo_entries = Inr demo_archive
        \<and> final_files (repack demo_resolver (unpack_files U) demo_sdk (replicate 16 0)
              demo_entries ''out'' (Some ''new.DSK'') (Some ''new.PFT'')) ''new.DSK''
            = Some demo_archive)"
proof -
  have h1: "demo_entries \<noteq> []" by (simp add: demo_entries_def)
  have h2: "demo_resolver ''out'' = IsDir" by (simp add: demo_resolver_values)
  note h3 = demo_separate
  have h4: "all_in_range demo_archive demo_entries"
    by (simp add: all_in_range_def demo_entries_def demo_archive_def BLOCK_SIZE_def)
  have h5: "length demo_archive = (max_block_of demo_entries + 1) * BLOCK_SIZE"
    by (simp add: demo_max_block BLOCK_SIZE_def demo_archive_def)
  note h6 = demo_archive_gaps
  have o1: "demo_resolver (path_or (Some ''new.DSK'') (archive_path demo_sdk)) = IsFile ''new.DSK''"
    by (simp add: path_or_def demo_resolver_values)
  have o2: "demo_resolver (path_or (Some ''new.PFT'') (index_path demo_sdk)) \<noteq> IsFile ''new.DSK''"
    by (simp add: path_or_def demo_resolver_values)
  from repack_unpack_roundtrip [OF h1 h2 h3 h4 h5 h6, of Map.empty "Some ''new.DSK''" demo_sdk
      "Some ''new.PFT''" "replicate 16 0"] o1 o2
  have "\<exists>U. unpack demo_resolver Map.empty demo_archive demo_entries ''out'' = Inr U
        \<and> repacked demo_resolver (unpack_files U) ''out'' demo_entries = Inr demo_archive
        \<and> final_files (repack demo_resolver (unpack_files U) demo_sdk (replicate 16 0)
              demo_entries ''out'' (Some ''new.DSK'') (Some ''new.PFT'')) ''new.DSK''
            = Some demo_archive"
    by blast
  with h1 h2 h3 h4 h5 h6 show ?thesis by blast
qed

lemma unpack_out_of_range_instance:
  "unpack demo_resolver Map.empty (replicate 2048 1) [(''A'', 0, 5000)] ''out''
     = Inr \<lparr>unpack_files = Map.empty, extracted = 0,
            unpack_log = [OutOfRange ''A'' 0 0 5000 2048]\<rparr>"
  by (simp add: unpack_def demo_resolver_values BLOCK_SIZE_def)

lemma repacked_out_of_range_instance:
  "repacked demo_resolver Map.empty ''out'' [(''A'', 0, 5000)] = Inr (replicate 2048 0)"
  by (simp add: repacked_def repack_build_def path_exists_def demo_unit_paths
      demo_resolver_values BLOCK_SIZE_def)

lemma unpack_alias_instance:
  "unpack demo_resolver Map.empty ([1] @ replicate 2047 0 @ [2] @ replicate 2047 0)
       [(''./A'', 0, 1), (''A'', 1, 1)] ''out''
     = Inr \<lparr>unpack_files = [''out/A.SCF'' \<mapsto> [2]], extracted = 2,
            unpack_log = [Extracted ''./A'' 0 0 1, Extracted ''A'' 1 2048 1]\<rparr>"
  by (simp add: unpack_def demo_resolver_values demo_unit_paths write_file_def BLOCK_SIZE_def
      py_slice_def)

lemma repacked_alias_instance:
  "repacked demo_resolver [''out/A.SCF'' \<mapsto> [2]] ''out'' [(''./A'', 0, 1), (''A'', 1, 1)]
     = Inr ([2] @ replicate 2047 0 @ [2] @ replicate 2047 0)"
proof -
  have w1: "write_slice (replicate 4096 (0::byte)) 0 (Suc 0) [2] = 2 # replicate 4095 0"
    by (simp add: write_slice_def)
  have w2: "write_slice (2 # replicate 4095 (0::byte)) 2048 2049 [2]
      = 2 # replicate 2047 0 @ 2 # replicate 2047 0"
    by (simp add: write_slice_def)
  show ?thesis
    by (simp add: repacked_def repack_build_def path_exists_def read_file_def demo_unit_paths
        demo_resolver_values BLOCK_SIZE_def w1 w2)
qed

text \<open>
  Claim C1 as stated fails in three ways, all inside its hypotheses. An entry whose span
  ends beyond the archive is skipped by \<open>unpack\<close>, so no file exists for it and \<open>repack\<close>
  leaves its region zero. The names \<open>./A\<close> and \<open>A\<close> differ but name one file, which holds
  the bytes of the later entry when \<open>repack\<close> reads it for the earlier one. The name \<open>A/B\<close>
  cannot be opened, so \<open>unpack\<close> raises and there is nothing to repack.
\<close>

theorem roundtrip_fails_outside_amendment:
  "length (replicate 2048 (1::byte)) = (max_block_of [(''A'', 0, 5000)] + 1) * BLOCK_SIZE
   \<and> gaps_zero (replicate 2048 1) [(''A'', 0, 5000)]
   \<and> unpack demo_resolver Map.empty (replicate 2048 1) [(''A'', 0, 5000)] ''out''
       = Inr \<lparr>unpack_files = Map.empty, extracted = 0,
              unpack_log = [OutOfRange ''A'' 0 0 5000 2048]\<rparr>
   \<and> repacked demo_resolver Map.empty ''out'' [(''A'', 0, 5000)] = Inr (replicate 2048 0)
   \<and> replicate 2048 (0::byte) \<noteq> replicate 2048 1
   \<and> length ([1] @ replicate 2047 0 @ [2] @ replicate 2047 (0::byte))
       = (max_block_of [(''./A'', 0, 1), (''A'', 1, 1)] + 1) * BLOCK_SIZE
   \<and> gaps_zero ([1] @ replicate 2047 0 @ [2] @ replicate 2047 0) [(''./A'', 0, 1), (''A'', 1, 1)]
   \<and> all_in_range ([1] @ replicate 2047 0 @ [2] @ replicate 2047 0) [(''./A'', 0, 1), (''A'', 1, 1)]
   \<and> distinct (map fst [(''./A'', 0 :: nat, 1 :: nat), (''A'', 1, 1)])
   \<and> unpack demo_resolver Map.empty ([1] @ replicate 2047 0 @ [2] @ replicate 2047 0)
         [(''./A'', 0, 1), (''A'', 1, 1)] ''out''
       = Inr \<lparr>unpack_files = [''out/A.SCF'' \<mapsto> [2]], extracted = 2,
              unpack_log = [Extracted ''./A'' 0 0 1, Extracted ''A'' 1 2048 1]\<rparr>
   \<and> repacked demo_resolver [''out/A.SCF'' \<mapsto> [2]] ''out'' [(''./A'', 0, 1), (''A'', 1, 1)]
       = Inr ([2] @ replicate 2047 0 @ [2] @ replicate 2047 0)
   \<and> [2] @ replicate 2047 0 @ [2] @ replicate 2047 0
       \<noteq> [1] @ replicate 2047 0 @ [2] @ replicate 2047 (0::byte)
   \<and> length ([1] @ replicate 2047 (0::byte)) = (max_block_of [(''A/B'', 0, 1)] + 1) * BLOCK_SIZE
   \<and> gaps_zero ([1] @ replicate 2047 0) [(''A/B'', 0, 1)]
   \<and> all_in_range ([1] @ replicate 2047 0) [(''A/B'', 0, 1)]
   \<and> unpack demo_resolver Map.empty ([1] @ replicate 2047 0) [(''A/B'', 0, 1)] ''out''
       = Inl (PathError ''out/A/B.SCF'',
              \<lparr>unpack_files = Map.empty, extracted = 0, unpack_log = []\<rparr>)"
proof -
  have a1: "length (replicate 2048 (1::byte)) = (max_block_of [(''A'', 0, 5000)] + 1) * BLOCK_SIZE"
    by (simp add: max_block_of_def BLOCK_SIZE_def)
  have a2: "gaps_zero (replicate 2048 1) [(''A'', 0, 5000)]"
    by (simp add: gaps_zero_def covered_def BLOCK_SIZE_def)
  note a3 = unpack_out_of_range_instance
  note a4 = repacked_out_of_range_instance
  have a5: "replicate 2048 (0::byte) \<noteq> replicate 2048 1"
    by (simp add: replicate_eq_replicate)
  have b1: "length ([1] @ replicate 2047 0 @ [2] @ replicate 2047 (0::byte))
       = (max_block_of [(''./A'', 0, 1), (''A'', 1, 1)] + 1) * BLOCK_SIZE"
    by (simp add: max_block_of_def BLOCK_SIZE_def)
  have "([1] @ replicate 2047 0 @ [2] @ replicate 2047 (0::byte)) ! pos = 0"
    if "pos < 4096" "pos \<noteq> 0" "pos \<noteq> 2048" for pos
    using that by (auto simp add: nth_append nth_Cons')
  then have b2: "gaps_zero ([1] @ replicate 2047 0 @ [2] @ replicate 2047 0)
      [(''./A'', 0, 1), (''A'', 1, 1)]"
    by (auto simp add: gaps_zero_def covered_def BLOCK_SIZE_def)
  have b3: "all_in_range ([1] @ replicate 2047 0 @ [2] @ replicate 2047 0)
      [(''./A'', 0, 1), (''A'', 1, 1)]"
    by (simp add: all_in_range_def BLOCK_SIZE_def)
  have b4: "distinct (map fst [(''./A'', 0 :: nat, 1 :: nat), (''A'', 1, 1)])" by simp
  note b5 = unpack_alias_instance
  note b6 = repacked_alias_instance
  have b7: "[2] @ replicate 2047 0 @ [2] @ replicate 2047 0
       \<noteq> [1] @ replicate 2047 0 @ [2] @ replicate 2047 (0::byte)"
    by simp
  have c1: "length ([1] @ replicate 2047 (0::byte)) = (max_block_of [(''A/B'', 0, 1)] + 1) * BLOCK_SIZE"
    by (simp add: max_block_of_def BLOCK_SIZE_def)
  have "([1] @ replicate 2047 (0::byte)) ! pos = 0" if "pos < 2048" "pos \<noteq> 0" for pos
    using that by (auto simp add: nth_append nth_Cons')
  then have c2: "gaps_zero ([1] @ replicate 2047 0) [(''A/B'', 0, 1)]"
    by (auto simp add: gaps_zero_def covered_def BLOCK_SIZE_def)
  have c3: "all_in_range ([1] @ replicate 2047 0) [(''A/B'', 0, 1)]"
    by (simp add: all_in_range_def BLOCK_SIZE_def)
  have c4: "unpack demo_resolver Map.empty ([1] @ replicate 2047 0) [(''A/B'', 0, 1)] ''out''
       = Inl (PathError ''out/A/B.SCF'',
              \<lparr>unpack_files = Map.empty, extracted = 0, unpack_log = []\<rparr>)"
    by (simp add: unpack_def demo_resolver_values demo_unit_paths write_file_def BLOCK_SIZE_def
        py_slice_def)
  from a1 a2 a3 a4 a5 b1 b2 b3 b4 b5 b6 b7 c1 c2 c3 c4 show ?thesis by blast
qed

subsection \<open>The length of the repacked archive\<close>

lemma repack_loop_fits:
  assumes "all_fit rs files input_dir es (length (archive_data st))"
  shows "\<exists>st'. repack_loop rs files input_dir es st = Inr st'
     \<and> length (archive_data st') = length (archive_data st)
     \<and> (\<forall>pos < length (archive_data st). \<not> written rs files input_dir es pos \<longrightarrow>
           archive_data st' ! pos = archive_data st ! pos)"
  using assms
proof (induction es arbitrary: st)
  case Nil
  show ?case by simp
next
  case (Cons e es)
  obtain name idx sz where e: "e = (name, idx, sz)" by (cases e)
  define a where "a = idx * BLOCK_SIZE"
  have step: "\<exists>st'. repack_entry rs files input_dir e st = Inr st'
      \<and> length (archive_data st') = length (archive_data st)
      \<and> (\<forall>pos < length (archive_data st). \<not> written rs files input_dir [e] pos \<longrightarrow>
            archive_data st' ! pos = archive_data st ! pos)"
  proof (cases "path_exists rs files (unit_path input_dir name)")
    case False
    then show ?thesis by (simp add: e Let_def)
  next
    case True
    from Cons.prems have nd: "rs (unit_path input_dir name) \<noteq> IsDir"
      by (auto simp add: all_fit_def e split: path_status.splits)
    with True obtain f d where f: "rs (unit_path input_dir name) = IsFile f" and d: "files f = Some d"
      by (auto simp add: path_exists_def split: path_status.splits)
    with Cons.prems have fit: "a + length d \<le> length (archive_data st)"
      by (simp add: all_fit_def e a_def)
    then have a_le: "a \<le> length (archive_data st)" by simp
    define st' where "st' = st\<lparr>archive_data := write_slice (archive_data st) a (a + length d) d,
        new_entries := new_entries st @ [(name, idx, length d)],
        repack_log := repack_log st @ [Packed name idx a (length d)]\<rparr>"
    have r: "repack_entry rs files input_dir e st = Inr st'"
      using True by (simp add: e Let_def read_file_def f d st'_def a_def)
    have buf': "archive_data st' = write_slice (archive_data st) a (a + length d) d"
      by (simp add: st'_def)
    have len: "length (archive_data st') = length (archive_data st)"
      using write_slice_length [OF a_le, of d] fit by (simp add: buf' max_def)
    have "archive_data st' ! pos = archive_data st ! pos"
      if p: "pos < length (archive_data st)" and nw: "\<not> written rs files input_dir [e] pos" for pos
    proof -
      from nw f d have out: "\<not> (a \<le> pos \<and> pos < a + length d)"
        by (simp add: written_def e a_def)
      have pm: "pos < max (length (archive_data st)) (a + length d)" using p by simp
      from write_slice_nth [OF a_le pm] out show ?thesis by (auto simp add: buf')
    qed
    with len r show ?thesis by blast
  qed
  then obtain st' where st': "repack_entry rs files input_dir e st = Inr st'"
    "length (archive_data st') = length (archive_data st)"
    "\<forall>pos < length (archive_data st). \<not> written rs files input_dir [e] pos \<longrightarrow>
            archive_data st' ! pos = archive_data st ! pos"
    by blast
  from Cons.prems st'(2) have fit': "all_fit rs files input_dir es (length (archive_data st'))"
    by (simp add: all_fit_def)
  from Cons.IH [OF fit'] obtain st'' where ih:
    "repack_loop rs files input_dir es st' = Inr st''"
    "length (archive_data st'') = length (archive_data st')"
    "\<forall>pos < length (archive_data st'). \<not> written rs files input_dir es pos \<longrightarrow>
           archive_data st'' ! pos = archive_data st' ! pos"
    by blast
  have wr: "written rs files input_dir (e # es) pos \<longleftrightarrow>
      written rs files input_dir [e] pos \<or> written rs files input_dir es pos" for pos
    by (auto simp add: written_def)
  have "\<forall>pos < length (archive_data st). \<not> written rs files input_dir (e # es) pos \<longrightarrow>
           archive_data st'' ! pos = archive_data st ! pos"
    using ih(3) st'(2,3) by (simp add: wr)
  with ih(1,2) st'(1,2) show ?case by simp
qed

text \<open>
  When every replacement file that is present ends inside
  \<open>(max(blockIndex) + 1) * 2048\<close> bytes, the buffer that \<open>repack\<close> builds has exactly that
  length, and every position that no replacement file occupies is zero.
\<close>

lemma repack_length_when_fitting:
  assumes "entries \<noteq> []"
    and "all_fit rs files input_dir entries ((max_block_of entries + 1) * BLOCK_SIZE)"
  shows "\<exists>buf. repacked rs files input_dir entries = Inr buf
     \<and> length buf = (max_block_of entries + 1) * BLOCK_SIZE
     \<and> (\<forall>pos < length buf. \<not> written rs files input_dir entries pos \<longrightarrow> buf ! pos = 0)"
proof -
  define st0 where "st0 = \<lparr>archive_data = replicate ((max_block_of entries + 1) * BLOCK_SIZE) (0::byte),
               new_entries = [], repack_log = []\<rparr>"
  have fit: "all_fit rs files input_dir entries (length (archive_data st0))"
    using assms(2) by (simp add: st0_def)
  have r: "repack_build rs files input_dir entries = repack_loop rs files input_dir entries st0"
    using repack_build_from_zero [OF assms(1), of rs files input_dir] by (simp add: st0_def)
  from repack_loop_fits [OF fit] obtain st' where
    "repack_loop rs files input_dir entries st0 = Inr st'"
    "length (archive_data st') = length (archive_data st0)"
    "\<forall>pos < length (archive_data st0). \<not> written rs files input_dir entries pos \<longrightarrow>
           archive_data st' ! pos = archive_data st0 ! pos"
    by blast
  then show ?thesis
    by (simp add: repacked_def r) (simp add: st0_def)
qed

lemma repacked_oversize_instance:
  "repacked demo_resolver demo_oversize ''out'' [(''A'', 0, 1)] = Inr (replicate 2049 7)"
  by (simp add: repacked_def repack_build_def path_exists_def read_file_def demo_unit_paths
      demo_resolver_values demo_oversize_def BLOCK_SIZE_def write_slice_def)

text \<open>
  Claim C3 (evaluation of the code at the failing input). The index has the one entry
  \<open>('A', 0, 1)\<close>, so the buffer is one block of 2048 bytes; the replacement file \<open>A.SCF\<close>
  holds 2049 bytes. The slice assignment extends the buffer, and the archive written to
  \<open>new.DSK\<close> has 2049 bytes, one more than \<open>(max(blockIndex) + 1) * 2048\<close>. The original
  archive \<open>scene.DSK\<close> is left as it was, since another output path is given.
\<close>

theorem repack_grows_past_last_block:
  "repacked demo_resolver demo_oversize ''out'' [(''A'', 0, 1)] = Inr (replicate 2049 7)
   \<and> length (replicate 2049 (7::byte)) \<noteq> (max_block_of [(''A'', 0, 1)] + 1) * BLOCK_SIZE
   \<and> final_files (repack demo_resolver demo_oversize demo_sdk (replicate 16 0) [(''A'', 0, 1)]
        ''out'' (Some ''new.DSK'') (Some ''new.PFT'')) ''new.DSK'' = Some (replicate 2049 7)
   \<and> final_files (repack demo_resolver demo_oversize demo_sdk (replicate 16 0) [(''A'', 0, 1)]
        ''out'' (Some ''new.DSK'') (Some ''new.PFT'')) ''scene.DSK'' = Some (replicate 2048 0)"
proof -
  obtain st where build: "repack_build demo_resolver demo_oversize ''out'' [(''A'', 0, 1)] = Inr st"
    and buf: "archive_data st = replicate 2049 7"
    using repacked_oversize_instance by (auto simp add: repacked_def split: sum.splits)
  have l: "length (replicate 2049 (7::byte)) \<noteq> (max_block_of [(''A'', 0, 1)] + 1) * BLOCK_SIZE"
    by (simp add: max_block_of_def BLOCK_SIZE_def)
  have n1: "final_files (repack demo_resolver demo_oversize demo_sdk (replicate 16 0) [(''A'', 0, 1)]
        ''out'' (Some ''new.DSK'') (Some ''new.PFT'')) ''new.DSK'' = Some (replicate 2049 7)"
    using repack_final_archive [OF build, of "Some ''new.DSK''" demo_sdk "''new.DSK''"
        "Some ''new.PFT''" "replicate 16 0"]
    by (simp add: path_or_def demo_resolver_values buf)
  have n2: "final_files (repack demo_resolver demo_oversize demo_sdk (replicate 16 0)
        [(''A'', 0, 1)] ''out'' (Some ''new.DSK'') (Some ''new.PFT'')) ''scene.DSK''
      = Some (replicate 2048 0)"
    using repack_final_other [OF build, of "Some ''new.DSK''" demo_sdk "''new.DSK''"
        "Some ''new.PFT''" "''scene.DSK''" "replicate 16 0"]
    by (simp add: path_or_def demo_resolver_values demo_oversize_def)
  from repacked_oversize_instance l n1 n2 show ?thesis by blast
qed

text \<open>
  With no output path the new archive goes to the path of the original archive: the file
  there is replaced as a whole by the buffer that \<open>repack\<close> built.
\<close>

lemma repack_default_output_is_original:
  assumes "repack_build rs files input_dir entries = Inr st"
    and "rs (archive_path self) = IsFile original"
    and "rs (path_or output_index (index_path self)) \<noteq> IsFile original"
  shows "final_files (repack rs files self header entries input_dir None output_index) original
     = Some (archive_data st)"
  using repack_final_archive [OF assms(1), of None self original output_index header] assms(2,3)
  by (simp add: path_or_def)

end
